theory Spec2Isabelle
  imports Complex_Main "HOL-Library.Extended_Nat" "HOL-Library.Log_Nat"
begin

section \<open>Data model\<close>

text \<open>
  The two source variants (\<^verbatim>\<open>WaveFunctionCollapsePlugIn\<close> and the internal class
  \<^verbatim>\<open>WFC\<close>) carry the same algorithm text; the embedding below follows class
  \<^verbatim>\<open>WFC\<close> and class \<^verbatim>\<open>Random\<close>.

  Numbers. Indices and sizes are integers (\<open>int\<close>, with the sentinel \<open>-1\<close>) and
  entropies are \<open>enat\<close> (\<open>\<infinity>\<close> is \<open>Infinity\<close>). The state of the generator and
  the numbers it returns are doubles, computed as the source computes them, with the
  rounding of every operation (type \<open>number\<close> below).
\<close>

subsection \<open>Doubles\<close>

text \<open>
  A finite double is \<open>m * 2^e\<close> for integers \<open>m\<close> and \<open>e\<close> with \<open>\<bar>m\<bar> < 2^53\<close>
  and \<open>-1074 \<le> e \<le> 971\<close>; \<open>Dyadic m e\<close> stands for this value, and
  \<open>Integer n\<close> for the integer \<open>n\<close>. Several pairs stand for one value. \<open>Infinity\<close>
  is the infinity of either sign, and \<open>-0\<close> is not told apart from \<open>0\<close>: the
  operations of the generator treat the two signs alike.
\<close>

datatype number = Dyadic int int | Infinity | NaN

abbreviation Integer :: "int \<Rightarrow> number" where
  "Integer n \<equiv> Dyadic n 0"

text \<open>\<open>n / 2^k\<close> for \<open>n \<ge> 0\<close>, rounded to the nearest integer, a tie to the even one.\<close>

definition round_half_even :: "int \<Rightarrow> nat \<Rightarrow> int" where
  "round_half_even n k =
     (let q = n div 2 ^ k; r = n mod 2 ^ k
      in if 2 ^ k < 2 * r \<or> (2 * r = 2 ^ k \<and> odd q) then q + 1 else q)"

text \<open>
  The double nearest to \<open>m * 2^e\<close>, a tie to the even mantissa: \<open>k\<close> low bits are
  rounded away, as many as leave a mantissa of \<open>53\<close> bits and an exponent of at least
  \<open>-1074\<close>; a result of \<open>2^1024\<close> or more is \<open>Infinity\<close>.
\<close>

definition round_double :: "int \<Rightarrow> int \<Rightarrow> number" where
  "round_double m e =
     (let k = max (bitlen \<bar>m\<bar> - 53) (- 1074 - e);
          q = (if 0 < k then round_half_even \<bar>m\<bar> (nat k) else \<bar>m\<bar>);
          e' = (if 0 < k then e + k else e)
      in if q \<noteq> 0 \<and> 1024 < bitlen q + e' then Infinity else Dyadic (sgn m * q) e')"

text \<open>\<open>a * x\<close> and \<open>x + c\<close> for integers \<open>a\<close> and \<open>c\<close> that are doubles.\<close>

definition times_number :: "int \<Rightarrow> number \<Rightarrow> number" where
  "times_number a x =
     (case x of
        Dyadic m e \<Rightarrow> round_double (a * m) e
      | Infinity \<Rightarrow> if a = 0 then NaN else Infinity
      | NaN \<Rightarrow> NaN)"

definition plus_number :: "number \<Rightarrow> int \<Rightarrow> number" where
  "plus_number x c =
     (case x of
        Dyadic m e \<Rightarrow>
          if 0 \<le> e then round_double (m * 2 ^ nat e + c) 0
          else round_double (m + c * 2 ^ nat (- e)) e
      | Infinity \<Rightarrow> Infinity
      | NaN \<Rightarrow> NaN)"

text \<open>
  \<open>x % d\<close> for an integer \<open>d > 0\<close>: the remainder has the sign of \<open>x\<close> and is exact;
  it is \<open>NaN\<close> for an infinite \<open>x\<close>.
\<close>

definition rem_number :: "number \<Rightarrow> int \<Rightarrow> number" where
  "rem_number x d =
     (case x of
        Dyadic m e \<Rightarrow>
          if 0 \<le> e then Dyadic (sgn m * ((\<bar>m\<bar> * 2 ^ nat e) mod d)) 0
          else Dyadic (sgn m * (\<bar>m\<bar> mod (d * 2 ^ nat (- e)))) e
      | Infinity \<Rightarrow> NaN
      | NaN \<Rightarrow> NaN)"

text \<open>\<open>x / 2^j\<close>.\<close>

definition divide_pow2 :: "number \<Rightarrow> nat \<Rightarrow> number" where
  "divide_pow2 x j =
     (case x of
        Dyadic m e \<Rightarrow> round_double m (e - int j)
      | Infinity \<Rightarrow> Infinity
      | NaN \<Rightarrow> NaN)"

text \<open>
  \<^verbatim>\<open>Math.floor\<close>, for use as an array index: \<open>None\<close> is a result that is no integer
  (\<open>NaN\<close>, an infinity), which indexes nothing.
\<close>

definition Math_floor :: "number \<Rightarrow> int option" where
  "Math_floor x =
     (case x of
        Dyadic m e \<Rightarrow> Some (if 0 \<le> e then m * 2 ^ nat e else m div 2 ^ nat (- e))
      | Infinity \<Rightarrow> None
      | NaN \<Rightarrow> None)"

text \<open>The test \<^verbatim>\<open>x ? ... : ...\<close> on a number: \<open>0\<close> and \<open>NaN\<close> are falsy.\<close>

definition truthy_number :: "number \<Rightarrow> bool" where
  "truthy_number x = (case x of Dyadic m e \<Rightarrow> m \<noteq> 0 | Infinity \<Rightarrow> True | NaN \<Rightarrow> False)"

subsection \<open>Records\<close>

datatype BufferState = collapsed | ready | collapsing | unknown | defaults

record Rule =
  up :: "string list"
  down :: "string list"
  left :: "string list"
  right :: "string list"

text \<open>
  A stored tile. Every place that stores a tile (constructor, \<^verbatim>\<open>resetLevel\<close>,
  \<^verbatim>\<open>resetTileData\<close>, \<^verbatim>\<open>setTileData\<close>, \<^verbatim>\<open>setTiles\<close>) writes \<open>index\<close>,
  \<open>entropy\<close> and \<open>availableTiles\<close>; only \<open>type\<close> can be \<open>undefined\<close>
  (\<open>None\<close>).
\<close>

record TileData =
  index :: int
  type :: "string option"
  entropy :: enat
  availableTiles :: "string list"

text \<open>
  An element of the collection passed to \<^verbatim>\<open>setTiles\<close>: declared as
  \<^verbatim>\<open>{ index: number; tile: TileData }\<close>, read by the callback as a \<^verbatim>\<open>TileData\<close>.
  \<open>entry_type\<close> is the element's own \<^verbatim>\<open>type\<close> property (\<open>None\<close> when it
  has none, as the declared shape has none).
\<close>

record TileEntry =
  entry_index :: int
  entry_type :: "string option"
  entry_tile :: TileData

record Random =
  seed :: number

datatype direction = Up | Down | Left | Right

datatype error =
    NotReady                \<comment> \<open>tile data is invalid currently in this state\<close>
  | StartTileError          \<comment> \<open>Error choosing initial starting tile\<close>
  | NoValidTilesRemaining   \<comment> \<open>no valid tiles remaining\<close>
  | UnableToSelect          \<comment> \<open>unable to select next tile\<close>
  | Contradiction           \<comment> \<open>there are no valid tiles remaining (with payload)\<close>
  | CollapseFailed          \<comment> \<open>failed to collapse tile\<close>
  | CorruptState            \<comment> \<open>corrupt tile data, invalid undefined type found\<close>
  | BrokenLevel direction   \<comment> \<open>broken level, can't get entropy of ... tile\<close>
  | InvalidTileType         \<comment> \<open>invalid tile type found\<close>
  | BrokenPlot              \<comment> \<open>Broken Plot, no availble neighbor tiles\<close>
  | TypeError               \<comment> \<open>property access on undefined\<close>
  | TileNotFound            \<comment> \<open>Error choosing tile\<close>
  | Rethrown error          \<comment> \<open>new Error(error)\<close>

text \<open>
  The tile array may have holes (JavaScript extends an array written beyond its
  length); a hole is \<open>None\<close>. \<open>rules\<close> is the object \<^verbatim>\<open>Record<string, Rule>\<close>
  as the list of its own entries in \<^verbatim>\<open>Object.keys\<close> order, each key once;
  \<open>weighting\<close> is the map of the weights stored in the object
  \<^verbatim>\<open>Record<string, WeightData>\<close>, the weights being integers.
\<close>

record WFC =
  width :: int
  height :: int
  numTiles :: int
  rnd :: Random
  tiles :: "TileData option list"
  rules :: "(string \<times> Rule) list"
  weighting :: "string \<rightharpoonup> int"
  bufferstate :: BufferState
  startWithRandom :: bool

section \<open>Array helpers\<close>

text \<open>\<^verbatim>\<open>this.tiles[i]\<close>: \<open>undefined\<close> out of range and at a hole.\<close>

definition tile_at :: "TileData option list \<Rightarrow> int \<Rightarrow> TileData option" where
  "tile_at ts i = (if 0 \<le> i \<and> i < int (length ts) then ts ! nat i else None)"

text \<open>
  \<^verbatim>\<open>this.tiles[i] = v\<close>: replaces an element, extends the array with holes when
  \<open>i\<close> is beyond its end, and creates a property that is no element (invisible to
  every array method) when \<open>i\<close> is negative.
\<close>

definition array_set :: "'a option list \<Rightarrow> int \<Rightarrow> 'a \<Rightarrow> 'a option list" where
  "array_set xs i v =
     (if i < 0 then xs
      else if i < int (length xs) then xs[nat i := Some v]
      else xs @ replicate (nat i - length xs) None @ [Some v])"

text \<open>Assignment to a field of the tile object stored at position \<open>p\<close>.\<close>

definition modify_tile :: "nat \<Rightarrow> (TileData \<Rightarrow> TileData) \<Rightarrow> WFC \<Rightarrow> WFC" where
  "modify_tile p f s = s\<lparr>tiles := (tiles s)[p := map_option f (tiles s ! p)]\<rparr>"

text \<open>The elements an array method visits, with their positions (holes are skipped).\<close>

definition present :: "'a option list \<Rightarrow> (nat \<times> 'a) list" where
  "present xs = concat (map (\<lambda>(p, x). case x of None \<Rightarrow> [] | Some t \<Rightarrow> [(p, t)])
                           (zip [0..<length xs] xs))"

text \<open>
  The remainder operator \<^verbatim>\<open>%\<close>: the sign of the dividend, \<open>NaN\<close> (\<open>None\<close>) for
  a zero divisor.
\<close>

definition js_rem :: "int \<Rightarrow> int \<Rightarrow> int option" where
  "js_rem a b = (if b = 0 then None else Some (sgn a * (\<bar>a\<bar> mod \<bar>b\<bar>)))"

section \<open>class Random\<close>

text \<open>
  \<^verbatim>\<open>this.seed = (a * this.seed + c) % m; return this.seed / m\<close> with
  \<open>m = Math.pow(2, 32)\<close>.
\<close>

definition getRandom :: "Random \<Rightarrow> number \<times> Random" where
  "getRandom r =
     (let a = 1664525; c = 1013904223; m = 2 ^ 32;
          s = rem_number (plus_number (times_number a (seed r)) c) m
      in (divide_pow2 s 32, r\<lparr>seed := s\<rparr>))"

text \<open>\<^verbatim>\<open>set[choice]\<close> for an integer \<open>choice\<close>.\<close>

definition element_at :: "'a list \<Rightarrow> int \<Rightarrow> 'a option" where
  "element_at xs i = (if 0 \<le> i \<and> i < int (length xs) then Some (xs ! nat i) else None)"

definition pickOne :: "Random \<Rightarrow> 'a list \<Rightarrow> 'a option \<times> Random" where
  "pickOne r items =
     (let (rv, r') = getRandom r;
          choice = Math_floor (times_number (int (length items)) rv)
      in (case choice of None \<Rightarrow> None | Some i \<Rightarrow> element_at items i, r'))"

text \<open>
  The weights are a plain object \<^verbatim>\<open>{}\<close>, which inherits the members of
  \<^verbatim>\<open>Object.prototype\<close>. Reading \<^verbatim>\<open>wieghting[key]\<close> gives the weight stored under
  \<open>key\<close> (\<open>Own\<close>), else the inherited member if \<open>key\<close> names one (\<open>Inherited\<close>: a
  function or an object), else \<open>undefined\<close>. The key \<^verbatim>\<open>__proto__\<close> is an accessor:
  an assignment of a number to it stores nothing, and reading it gives the prototype.
\<close>

definition object_prototype_keys :: "string list" where
  "object_prototype_keys =
     [''constructor'', ''hasOwnProperty'', ''isPrototypeOf'', ''propertyIsEnumerable'',
      ''toLocaleString'', ''toString'', ''valueOf'', ''__proto__'',
      ''__defineGetter__'', ''__defineSetter__'', ''__lookupGetter__'', ''__lookupSetter__'']"

datatype property = Undefined | Own int | Inherited

definition get_weight :: "(string \<rightharpoonup> int) \<Rightarrow> string \<Rightarrow> property" where
  "get_weight wieghting key =
     (if key = ''__proto__'' then Inherited
      else case wieghting key of
             Some w \<Rightarrow> Own w
           | None \<Rightarrow> if key \<in> set object_prototype_keys then Inherited else Undefined)"

text \<open>
  \<^verbatim>\<open>wieghting.length == 0\<close> reads the weight stored under the key \<^verbatim>\<open>length\<close>.
  The \<^verbatim>\<open>for\<close> loop pushes the item \<open>w\<close> times, not at all when \<open>w \<le> 0\<close>; for an
  inherited member the test \<^verbatim>\<open>i < wieghting[item]\<close> compares with \<open>NaN\<close> and fails
  at once.
\<close>

definition expand_weighted :: "(string \<rightharpoonup> int) \<Rightarrow> string \<Rightarrow> string list" where
  "expand_weighted wieghting item =
     (if get_weight wieghting ''length'' = Own 0 \<or> get_weight wieghting item = Undefined
      then [item]
      else case get_weight wieghting item of
             Own w \<Rightarrow> replicate (nat w) item
           | _ \<Rightarrow> [])"

definition pickOneWeighted ::
  "Random \<Rightarrow> string list \<Rightarrow> (string \<rightharpoonup> int) \<Rightarrow> string option \<times> Random" where
  "pickOneWeighted r items wieghting =
     (let newSet = concat (map (expand_weighted wieghting) items);
          (rv, r') = getRandom r;
          choice = Math_floor (times_number (int (length newSet)) rv)
      in (case choice of None \<Rightarrow> None | Some i \<Rightarrow> element_at newSet i, r'))"

section \<open>class WFC\<close>

definition fresh_tile :: "nat \<Rightarrow> TileData option" where
  "fresh_tile i = Some \<lparr>index = int i, type = Some '''', entropy = \<infinity>, availableTiles = []\<rparr>"

text \<open>
  The constructor. \<open>seed_opt\<close> is \<^verbatim>\<open>options.seed\<close>, \<open>now\<close> the value of
  \<^verbatim>\<open>Date.now()\<close>, an integer. The test \<^verbatim>\<open>options.seed ? ... : ...\<close> takes a
  seed of \<open>0\<close> or \<open>NaN\<close> for a missing one.
\<close>

definition WFC_constructor :: "int \<Rightarrow> int \<Rightarrow> number option \<Rightarrow> int \<Rightarrow> WFC" where
  "WFC_constructor w h seed_opt now =
     \<lparr>width = w, height = h, numTiles = w * h,
      rnd = (case seed_opt of
               Some sd \<Rightarrow> if truthy_number sd then \<lparr>seed = sd\<rparr> else \<lparr>seed = Integer now\<rparr>
             | None \<Rightarrow> \<lparr>seed = Integer now\<rparr>),
      tiles = map fresh_tile [0..<nat (w * h)],
      rules = [], weighting = Map.empty,
      bufferstate = unknown, startWithRandom = True\<rparr>"

text \<open>\<^verbatim>\<open>setRules\<close> with an object argument: a deep copy of the object.\<close>

definition setRules :: "(string \<times> Rule) list \<Rightarrow> WFC \<Rightarrow> WFC" where
  "setRules rs s = s\<lparr>rules := rs\<rparr>"

text \<open>
  \<^verbatim>\<open>this.weighting[weight.type] = weight.weight\<close> for each element; the assignment
  to the key \<^verbatim>\<open>__proto__\<close> stores nothing.
\<close>

definition setWeights :: "(string \<times> int) list \<Rightarrow> WFC \<Rightarrow> WFC" where
  "setWeights ws s =
     s\<lparr>weighting := fold (\<lambda>(t, w) m. if t = ''__proto__'' then m else m(t \<mapsto> w)) ws
                       (weighting s)\<rparr>"

definition resetRules :: "WFC \<Rightarrow> WFC" where
  "resetRules s = s\<lparr>rules := []\<rparr>"

definition setTileData :: "TileData \<Rightarrow> int \<Rightarrow> bool \<Rightarrow> WFC \<Rightarrow> WFC" where
  "setTileData tile i setRandomStart s =
     s\<lparr>tiles := array_set (tiles s) i
                  \<lparr>index = i, type = type tile, entropy = \<infinity>, availableTiles = []\<rparr>,
       startWithRandom := setRandomStart\<rparr>"

text \<open>One call of the \<^verbatim>\<open>forEach\<close> callback of \<^verbatim>\<open>setTiles\<close>.\<close>

definition setTiles_entry :: "TileEntry \<Rightarrow> TileData option list \<Rightarrow> TileData option list" where
  "setTiles_entry inputTileData ts =
     (if entry_index inputTileData \<noteq> 0
      then array_set ts (entry_index inputTileData)
             \<lparr>index = entry_index inputTileData, type = entry_type inputTileData,
              entropy = \<infinity>, availableTiles = []\<rparr>
      else ts)"

definition setTiles :: "TileEntry list \<Rightarrow> bool \<Rightarrow> WFC \<Rightarrow> WFC" where
  "setTiles entries setRandomStart s =
     s\<lparr>tiles := fold setTiles_entry entries (tiles s), startWithRandom := setRandomStart\<rparr>"

definition isDataReady :: "WFC \<Rightarrow> BufferState" where
  "isDataReady s =
     (if length (tiles s) = 0 then unknown
      else if length (map fst (rules s)) = 0 then unknown
      else ready)"

text \<open>
  \<^verbatim>\<open>Array.from(this.tiles).find(tile => tile.index == index)\<close>: a hole becomes
  \<open>undefined\<close>, and the callback fails on it.
\<close>

fun find_tile :: "TileData option list \<Rightarrow> int \<Rightarrow> error + TileData" where
  "find_tile [] i = Inl TileNotFound"
| "find_tile (None # ts) i = Inl TypeError"
| "find_tile (Some t # ts) i = (if index t = i then Inr t else find_tile ts i)"

definition getTileData :: "WFC \<Rightarrow> int \<Rightarrow> error + TileData" where
  "getTileData s i =
     (if bufferstate s \<noteq> collapsed then Inl NotReady else find_tile (tiles s) i)"

subsection \<open>Neighbours\<close>

definition upTileIndex :: "WFC \<Rightarrow> int \<Rightarrow> int" where
  "upTileIndex s i = (if i - width s < 0 then - 1 else i - width s)"

definition downTileIndex :: "WFC \<Rightarrow> int \<Rightarrow> int" where
  "downTileIndex s i = (if i + width s > int (length (tiles s)) - 1 then - 1 else i + width s)"

definition rightTileIndex :: "WFC \<Rightarrow> int \<Rightarrow> int" where
  "rightTileIndex s i = (if js_rem i (width s) = Some (width s - 1) then - 1 else i + 1)"

definition leftTileIndex :: "WFC \<Rightarrow> int \<Rightarrow> int" where
  "leftTileIndex s i = (if js_rem i (width s) = Some 0 then - 1 else i - 1)"

subsection \<open>Entropy\<close>

text \<open>
  One of the four blocks of \<^verbatim>\<open>_getEntropy\<close> that read a neighbour: \<open>n\<close> is the
  neighbour's index, \<open>sel\<close> the field of its rule that faces the cell. For a type
  that is no key of the rules, \<^verbatim>\<open>this.rules[type]\<close> is \<open>undefined\<close> or a member
  inherited from \<^verbatim>\<open>Object.prototype\<close>; neither has the list, and reading or
  spreading it throws a \<open>TypeError\<close>.
\<close>

definition neighborAvailableTiles ::
  "WFC \<Rightarrow> int \<Rightarrow> (Rule \<Rightarrow> string list) \<Rightarrow> error + string list" where
  "neighborAvailableTiles s n sel =
     (if n \<noteq> - 1 then
        (case tile_at (tiles s) n of
           None \<Rightarrow> Inl TypeError
         | Some t \<Rightarrow>
             if entropy t = 0 then
               (case type t of
                  None \<Rightarrow> Inl InvalidTileType
                | Some ty \<Rightarrow>
                    (case map_of (rules s) ty of
                       None \<Rightarrow> Inl TypeError
                     | Some r \<Rightarrow> Inr (sel r)))
             else Inr [])
      else Inr [])"

text \<open>
  \<^verbatim>\<open>testArray.reduce((sum, arr) => sum.filter(x => arr.includes(x)), testArray[0])\<close>
\<close>

definition consolodate :: "string list list \<Rightarrow> string list" where
  "consolodate testArray =
     foldl (\<lambda>sum arr. filter (\<lambda>x. x \<in> set arr) sum) (hd testArray) testArray"

text \<open>
  The array \<open>testArray\<close> of \<^verbatim>\<open>_getEntropy\<close>: the four neighbour lists are read
  in the order up, down, left, right, and those of non-zero length are kept.
\<close>

definition testArray :: "WFC \<Rightarrow> int \<Rightarrow> error + string list list" where
  "testArray s i =
     (case neighborAvailableTiles s (upTileIndex s i) down of
        Inl e \<Rightarrow> Inl e
      | Inr upTileAvailableTiles \<Rightarrow>
     (case neighborAvailableTiles s (downTileIndex s i) up of
        Inl e \<Rightarrow> Inl e
      | Inr downTileAvailableTiles \<Rightarrow>
     (case neighborAvailableTiles s (leftTileIndex s i) right of
        Inl e \<Rightarrow> Inl e
      | Inr leftTileAvailableTiles \<Rightarrow>
     (case neighborAvailableTiles s (rightTileIndex s i) left of
        Inl e \<Rightarrow> Inl e
      | Inr rightTileAvailableTiles \<Rightarrow>
          Inr (filter (\<lambda>l. length l \<noteq> 0)
                 [upTileAvailableTiles, downTileAvailableTiles,
                  leftTileAvailableTiles, rightTileAvailableTiles])))))"

text \<open>
  \<^verbatim>\<open>_getEntropy\<close> returns the entropy and the state (it stores the candidate list),
  or throws, and then the state is as before.
\<close>

definition getEntropy :: "WFC \<Rightarrow> int \<Rightarrow> error + (enat \<times> WFC)" where
  "getEntropy s i =
     (case tile_at (tiles s) i of
        None \<Rightarrow> Inl TypeError
      | Some t \<Rightarrow>
          if entropy t = 0 then Inr (0, s)
          else
            (case testArray s i of
               Inl e \<Rightarrow> Inl e
             | Inr tA \<Rightarrow>
                 if length tA = 0 then Inr (\<infinity>, s)
                 else let consolodatedArray = consolodate tA
                      in if length consolodatedArray = 0 then Inl BrokenPlot
                         else Inr (enat (length consolodatedArray),
                                   modify_tile (nat i)
                                     (\<lambda>t. t\<lparr>availableTiles := consolodatedArray\<rparr>) s)))"

subsection \<open>Propagation\<close>

text \<open>
  One of the four \<^verbatim>\<open>try\<close> blocks of \<^verbatim>\<open>_setEntropyOfSurroundingTiles\<close>:
  \<open>None\<close> is the variable left \<open>undefined\<close>.
\<close>

definition neighborEntropy :: "WFC \<Rightarrow> int \<Rightarrow> direction \<Rightarrow> error + (enat option \<times> WFC)" where
  "neighborEntropy s n d =
     (if n \<noteq> - 1 then
        (case getEntropy s n of
           Inl e \<Rightarrow> Inl (BrokenLevel d)
         | Inr (e, s') \<Rightarrow> Inr (Some e, s'))
      else Inr (None, s))"

text \<open>A JavaScript number is truthy unless it is \<open>0\<close> (or \<open>NaN\<close>).\<close>

definition truthy :: "enat option \<Rightarrow> bool" where
  "truthy e = (case e of None \<Rightarrow> False | Some v \<Rightarrow> v \<noteq> 0)"

definition set_entropy :: "int \<Rightarrow> enat \<Rightarrow> WFC \<Rightarrow> WFC" where
  "set_entropy n e s = modify_tile (nat n) (\<lambda>t. t\<lparr>entropy := e\<rparr>) s"

text \<open>
  The four statements that update the entropies: the left one also tests the stored
  entropy, the other three only the truthiness of the computed one.
\<close>

definition storeLeftEntropy :: "int \<Rightarrow> enat option \<Rightarrow> WFC \<Rightarrow> WFC" where
  "storeLeftEntropy n e s =
     (if n \<noteq> - 1 \<and> truthy e \<and> map_option entropy (tile_at (tiles s) n) \<noteq> Some 0
      then set_entropy n (the e) s else s)"

definition storeEntropy :: "int \<Rightarrow> enat option \<Rightarrow> WFC \<Rightarrow> WFC" where
  "storeEntropy n e s = (if n \<noteq> - 1 \<and> truthy e then set_entropy n (the e) s else s)"

text \<open>
  The result is the error thrown, if any, and the state reached: a throw of a later
  neighbour leaves the candidate lists stored for the earlier ones.
\<close>

definition setEntropyOfSurroundingTiles :: "WFC \<Rightarrow> int \<Rightarrow> error option \<times> WFC" where
  "setEntropyOfSurroundingTiles s i =
     (let upI = upTileIndex s i; downI = downTileIndex s i;
          rightI = rightTileIndex s i; leftI = leftTileIndex s i
      in case neighborEntropy s upI Up of
           Inl e \<Rightarrow> (Some e, s)
         | Inr (upTileEntropy, s1) \<Rightarrow>
      (case neighborEntropy s1 downI Down of
           Inl e \<Rightarrow> (Some e, s1)
         | Inr (downTileEntropy, s2) \<Rightarrow>
      (case neighborEntropy s2 leftI Left of
           Inl e \<Rightarrow> (Some e, s2)
         | Inr (leftTileEntropy, s3) \<Rightarrow>
      (case neighborEntropy s3 rightI Right of
           Inl e \<Rightarrow> (Some e, s3)
         | Inr (rightTileEntropy, s4) \<Rightarrow>
             (None, storeEntropy downI downTileEntropy
                      (storeEntropy upI upTileEntropy
                         (storeEntropy rightI rightTileEntropy
                            (storeLeftEntropy leftI leftTileEntropy s4))))))))"

subsection \<open>The step loop\<close>

definition getNumberOfRemainingTilesToCollapse :: "WFC \<Rightarrow> nat" where
  "getNumberOfRemainingTilesToCollapse s =
     foldl (\<lambda>count (p, element). if entropy element \<noteq> 0 then count + 1 else count)
           0 (present (tiles s))"

text \<open>
  \<^verbatim>\<open>Math.min(...)\<close> of no argument is \<open>Infinity\<close>. The result lists the tile
  objects; the model pairs each with its position in the array, which is where an
  assignment to the object lands.
\<close>

definition getListofTilesWithLowestEntropy :: "WFC \<Rightarrow> (nat \<times> TileData) list" where
  "getListofTilesWithLowestEntropy s =
     (let filteredArrayNoZeroes = filter (\<lambda>(p, t). entropy t \<noteq> 0) (present (tiles s));
          minEntropy = fold min (map (\<lambda>(p, element). entropy element) filteredArrayNoZeroes) \<infinity>
      in filter (\<lambda>(p, element). entropy element = minEntropy) (present (tiles s)))"

fun prepare_tiles :: "nat list \<Rightarrow> WFC \<Rightarrow> error option \<times> WFC" where
  "prepare_tiles [] s = (None, s)"
| "prepare_tiles (p # ps) s =
     (case tiles s ! p of
        None \<Rightarrow> prepare_tiles ps s
      | Some tile \<Rightarrow>
          if entropy tile = 0 then prepare_tiles ps s
          else (case getEntropy s (int p) of
                  Inl e \<Rightarrow> (Some (Rethrown e), s)
                | Inr (e, s') \<Rightarrow> prepare_tiles ps (set_entropy (int p) e s')))"

definition prepareTileDataForCollapsing :: "WFC \<Rightarrow> error option \<times> WFC" where
  "prepareTileDataForCollapsing s = prepare_tiles [0..<length (tiles s)] s"

text \<open>
  One resumption of the generator \<^verbatim>\<open>_collapseNext\<close>: the body of the outer loop up
  to the next \<^verbatim>\<open>yield\<close> (\<open>Inr False\<close>), \<^verbatim>\<open>return\<close> (\<open>Inr True\<close>) or throw.
  No local variable survives a \<^verbatim>\<open>yield\<close>: after it \<open>passedEntropyTest\<close> is true, the
  inner loop ends and the outer loop starts over. \<open>choices\<close> is never added to. The
  \<^verbatim>\<open>break\<close> at \<open>retries <= 0\<close> leaves the inner loop without a \<^verbatim>\<open>yield\<close>, and the
  outer loop starts over: for the caller this is \<open>Inr False\<close> too. The \<^verbatim>\<open>catch\<close>
  block only logs and decrements \<open>retries\<close>; the statement after it throws.
\<close>

text \<open>
  The filter callback of the inner loop: \<^verbatim>\<open>!rslt\<close> holds when \<^verbatim>\<open>find\<close> returns
  \<open>undefined\<close> or the empty string.
\<close>

definition not_chosen :: "string list \<Rightarrow> string \<Rightarrow> bool" where
  "not_chosen choices item =
     (case find (\<lambda>chc. chc = item) choices of None \<Rightarrow> True | Some rslt \<Rightarrow> rslt = [])"

definition collapseNext :: "WFC \<Rightarrow> (error + bool) \<times> WFC" where
  "collapseNext s =
     (let nextGroupOfTiles = getListofTilesWithLowestEntropy s
      in if length nextGroupOfTiles = 0 then (Inl NoValidTilesRemaining, s)
         else
           let (picked, r1) = pickOne (rnd s) nextGroupOfTiles; s1 = s\<lparr>rnd := r1\<rparr>
           in case picked of
                None \<Rightarrow> (Inl UnableToSelect, s1)
              | Some (p, currentTileObject) \<Rightarrow>
                  if length (availableTiles currentTileObject) = 0 then (Inl Contradiction, s1)
                  else
                    let retries = int (length (availableTiles currentTileObject));
                        choices = ([] :: string list)
                    in if retries \<le> 0 then (Inr False, s1)
                       else
                         let availableChoices =
                               filter (not_chosen choices) (availableTiles currentTileObject);
                             (ty, r2) = pickOneWeighted r1 availableChoices (weighting s1);
                             s2 = modify_tile p (\<lambda>t. t\<lparr>type := ty, entropy := 0\<rparr>) (s1\<lparr>rnd := r2\<rparr>);
                             (thrown, s3) = setEntropyOfSurroundingTiles s2 (index currentTileObject)
                         in (case thrown of
                               Some e \<Rightarrow> (Inl CollapseFailed, s3)
                             | None \<Rightarrow>
                                 if getNumberOfRemainingTilesToCollapse s3 = 0 then (Inr True, s3)
                                 else if list_ex (\<lambda>(p, tile). type tile = None) (present (tiles s3))
                                 then (Inl CorruptState, s3)
                                 else (Inr False, s3)))"

text \<open>
  The driver loop of \<^verbatim>\<open>generateLevel\<close>: it resumes the generator until it returns or
  throws. The result is the error caught and logged, if any, and the state.
\<close>

partial_function (option) run_steps :: "WFC \<Rightarrow> (error option \<times> WFC) option" where
  "run_steps s =
     (case collapseNext s of
        (Inl e, s') \<Rightarrow> Some (Some e, s')
      | (Inr done, s') \<Rightarrow> if done then Some (None, s') else run_steps s')"

declare run_steps.simps [code]

text \<open>
  \<^verbatim>\<open>generateLevel\<close>. \<open>Inl e\<close>: the promise is rejected with \<open>e\<close>. \<open>Inr log\<close>: it
  is fulfilled, and \<open>log\<close> is the error caught by the driver loop, if any. The outer
  \<open>None\<close> is a driver loop that never ends.
\<close>

definition randomStart :: "WFC \<Rightarrow> error option \<times> WFC" where
  "randomStart s =
     (let (firstTile, r1) = pickOne (rnd s) (zip [0..<length (tiles s)] (tiles s));
          s1 = s\<lparr>rnd := r1\<rparr>
      in case firstTile of
           None \<Rightarrow> (Some StartTileError, s1)
         | Some (p, None) \<Rightarrow> (Some StartTileError, s1)
         | Some (p, Some t) \<Rightarrow>
             let (ty, r2) = pickOne r1 (map fst (rules s1))
             in (None, modify_tile p (\<lambda>t. t\<lparr>type := ty, entropy := 0\<rparr>) (s1\<lparr>rnd := r2\<rparr>)))"

definition generateLevel :: "WFC \<Rightarrow> ((error + error option) \<times> WFC) option" where
  "generateLevel s =
     (let s0 = s\<lparr>bufferstate := isDataReady s\<rparr>
      in if bufferstate s0 \<noteq> ready then Some (Inl NotReady, s0)
         else
           case (if startWithRandom s0 then randomStart s0 else (None, s0)) of
             (Some e, s1) \<Rightarrow> Some (Inl e, s1)
           | (None, s1) \<Rightarrow>
               (case prepareTileDataForCollapsing s1 of
                  (Some e, s2) \<Rightarrow> Some (Inl e, s2)
                | (None, s2) \<Rightarrow>
                    (case run_steps (s2\<lparr>bufferstate := collapsing\<rparr>) of
                       None \<Rightarrow> None
                     | Some (logged, s3) \<Rightarrow>
                         Some (Inr logged, s3\<lparr>bufferstate := collapsed\<rparr>))))"

section \<open>Notions used in the statements and proofs\<close>

text \<open>
  \<open>natural_seed\<close>: the state of the generator is an integer from \<open>0\<close> to below
  \<open>2^1000\<close>. (From about \<open>2^1003\<close> on the product \<open>a * seed\<close> is infinite and
  the state becomes \<open>NaN\<close>.) \<open>whole_seed\<close>: the state has no fractional part, that
  is, it is an integer of either sign and any size, an infinity or \<open>NaN\<close>.
\<close>

definition natural_seed :: "Random \<Rightarrow> bool" where
  "natural_seed r =
     (case seed r of Dyadic n e \<Rightarrow> e = 0 \<and> 0 \<le> n \<and> n < 2 ^ 1000 | _ \<Rightarrow> False)"

definition whole_seed :: "Random \<Rightarrow> bool" where
  "whole_seed r = (case seed r of Dyadic n e \<Rightarrow> e = 0 | _ \<Rightarrow> True)"

text \<open>
  What entropy computation and propagation leave alone: they change neither the
  scalar fields, nor the rules and weights, nor the length of the tile array, nor the
  index and type of any tile, nor whether a tile is resolved, nor a resolved tile.
\<close>

definition tile_frame :: "TileData option \<Rightarrow> TileData option \<Rightarrow> bool" where
  "tile_frame a b =
     (case a of
        None \<Rightarrow> b = None
      | Some t \<Rightarrow>
          (case b of
             None \<Rightarrow> False
           | Some t' \<Rightarrow> index t' = index t \<and> type t' = type t
                        \<and> (entropy t' = 0 \<longleftrightarrow> entropy t = 0)
                        \<and> (entropy t = 0 \<longrightarrow> t' = t)))"

definition frame :: "WFC \<Rightarrow> WFC \<Rightarrow> bool" where
  "frame s s' =
     (width s' = width s \<and> height s' = height s \<and> numTiles s' = numTiles s
      \<and> rnd s' = rnd s \<and> rules s' = rules s \<and> weighting s' = weighting s
      \<and> bufferstate s' = bufferstate s \<and> startWithRandom s' = startWithRandom s
      \<and> length (tiles s') = length (tiles s)
      \<and> (\<forall>p < length (tiles s). tile_frame (tiles s ! p) (tiles s' ! p)))"

text \<open>
  Example configurations. \<open>rules_undeclared\<close> declares only type \<open>A\<close> and lets it
  border on an undeclared type \<open>B\<close>. \<open>line3_seeded\<close> is a row of three cells whose
  first cell is resolved.
\<close>

definition rules_undeclared :: "(string \<times> Rule) list" where
  "rules_undeclared = [(''A'', \<lparr>up = [], down = [], left = [''B''], right = [''B'']\<rparr>)]"

definition line3_seeded :: WFC where
  "line3_seeded =
     \<lparr>width = 3, height = 1, numTiles = 3, rnd = \<lparr>seed = Integer 1\<rparr>,
      tiles = [Some \<lparr>index = 0, type = Some ''A'', entropy = 0, availableTiles = []\<rparr>,
               Some \<lparr>index = 1, type = Some '''', entropy = \<infinity>, availableTiles = []\<rparr>,
               Some \<lparr>index = 2, type = Some '''', entropy = \<infinity>, availableTiles = []\<rparr>],
      rules = rules_undeclared, weighting = Map.empty,
      bufferstate = collapsing, startWithRandom = True\<rparr>"

text \<open>
  \<open>rules_checker\<close> is the checkerboard rule set of two types. \<open>rules_two_undeclared\<close>
  gives type \<open>A\<close> two undeclared neighbours, and \<open>line3_two_candidates\<close> is a row of
  three cells prepared for the step loop under it: the middle cell has two candidates.
\<close>

definition rules_checker :: "(string \<times> Rule) list" where
  "rules_checker =
     [(''A'', \<lparr>up = [''B''], down = [''B''], left = [''B''], right = [''B'']\<rparr>),
      (''B'', \<lparr>up = [''A''], down = [''A''], left = [''A''], right = [''A'']\<rparr>)]"

definition rules_two_undeclared :: "(string \<times> Rule) list" where
  "rules_two_undeclared =
     [(''A'', \<lparr>up = [], down = [], left = [''B'', ''C''], right = [''B'', ''C'']\<rparr>)]"

definition line3_two_candidates :: WFC where
  "line3_two_candidates =
     \<lparr>width = 3, height = 1, numTiles = 3, rnd = \<lparr>seed = Integer 1\<rparr>,
      tiles = [Some \<lparr>index = 0, type = Some ''A'', entropy = 0, availableTiles = []\<rparr>,
               Some \<lparr>index = 1, type = Some '''', entropy = 2, availableTiles = [''B'', ''C'']\<rparr>,
               Some \<lparr>index = 2, type = Some '''', entropy = \<infinity>, availableTiles = []\<rparr>],
      rules = rules_two_undeclared, weighting = Map.empty,
      bufferstate = collapsing, startWithRandom = True\<rparr>"

text \<open>
  \<open>attempt\<close> is the state in which a resumption of the generator starts propagation:
  the chosen tile carries the picked type and entropy \<open>0\<close>. \<open>unresolved\<close> is the set
  of positions whose tile has a non-zero entropy.
\<close>

definition attempt :: "WFC \<Rightarrow> nat \<Rightarrow> TileData \<Rightarrow> string option \<Rightarrow> Random \<Rightarrow> WFC" where
  "attempt s p cur ty r2 = modify_tile p (\<lambda>t. t\<lparr>type := ty, entropy := 0\<rparr>) (s\<lparr>rnd := r2\<rparr>)"

definition unresolved :: "WFC \<Rightarrow> nat set" where
  "unresolved s = {p. p < length (tiles s) \<and> (\<exists>t. tiles s ! p = Some t \<and> entropy t \<noteq> 0)}"

text \<open>
  The entropy computation as section 4.3 of the specification words it. Each direction
  with an in-bounds, resolved neighbour contributes that neighbour's list for the
  opposite direction (\<open>spec_neighbor_list\<close>, \<open>spec_contributed\<close>); no contribution
  gives \<open>\<infinity>\<close>; otherwise the contributed lists are intersected in the order of the
  first one, and an empty intersection is a contradiction (\<open>spec_computeEntropy\<close>).
  \<open>nonempty_contributed\<close> keeps the contributed lists that are not empty.
  \<open>neighbors_readable\<close>: each neighbour index is \<open>-1\<close> or the index of a tile that is
  unresolved or has a type with a rule, so that reading the neighbours raises nothing.
  \<open>pair_isolated\<close> is a row of two cells: the first is resolved to a type whose four
  lists are empty.
\<close>

definition spec_neighbor_list :: "WFC \<Rightarrow> int \<Rightarrow> (Rule \<Rightarrow> string list) \<Rightarrow> string list option" where
  "spec_neighbor_list s n sel =
     (if n = - 1 then None
      else case tile_at (tiles s) n of
             None \<Rightarrow> None
           | Some t \<Rightarrow>
               if entropy t = 0
               then (case type t of
                       None \<Rightarrow> None
                     | Some ty \<Rightarrow> map_option sel (map_of (rules s) ty))
               else None)"

definition spec_contributed :: "WFC \<Rightarrow> int \<Rightarrow> string list list" where
  "spec_contributed s i =
     concat (map (\<lambda>(n, sel). case spec_neighbor_list s n sel of None \<Rightarrow> [] | Some l \<Rightarrow> [l])
               [(upTileIndex s i, down), (downTileIndex s i, up),
                (leftTileIndex s i, right), (rightTileIndex s i, left)])"

definition intersection_in_order :: "string list list \<Rightarrow> string list" where
  "intersection_in_order ls = filter (\<lambda>x. list_all (\<lambda>l. x \<in> set l) ls) (hd ls)"

definition entropy_of_lists :: "WFC \<Rightarrow> int \<Rightarrow> string list list \<Rightarrow> error + enat" where
  "entropy_of_lists s i ls =
     (case tile_at (tiles s) i of
        None \<Rightarrow> Inl TypeError
      | Some t \<Rightarrow>
          if entropy t = 0 then Inr 0
          else if ls = [] then Inr \<infinity>
          else if intersection_in_order ls = [] then Inl BrokenPlot
          else Inr (enat (length (intersection_in_order ls))))"

definition spec_computeEntropy :: "WFC \<Rightarrow> int \<Rightarrow> error + enat" where
  "spec_computeEntropy s i = entropy_of_lists s i (spec_contributed s i)"

definition nonempty_contributed :: "WFC \<Rightarrow> int \<Rightarrow> string list list" where
  "nonempty_contributed s i = filter (\<lambda>l. l \<noteq> []) (spec_contributed s i)"

definition neighbor_readable :: "WFC \<Rightarrow> int \<Rightarrow> bool" where
  "neighbor_readable s n =
     (n = - 1 \<or>
      (case tile_at (tiles s) n of
         None \<Rightarrow> False
       | Some t \<Rightarrow>
           entropy t \<noteq> 0 \<or>
           (case type t of None \<Rightarrow> False | Some ty \<Rightarrow> map_of (rules s) ty \<noteq> None)))"

definition neighbors_readable :: "WFC \<Rightarrow> int \<Rightarrow> bool" where
  "neighbors_readable s i =
     (neighbor_readable s (upTileIndex s i) \<and> neighbor_readable s (downTileIndex s i)
      \<and> neighbor_readable s (leftTileIndex s i) \<and> neighbor_readable s (rightTileIndex s i))"

definition pair_isolated :: WFC where
  "pair_isolated =
     \<lparr>width = 2, height = 1, numTiles = 2, rnd = \<lparr>seed = Integer 1\<rparr>,
      tiles = [Some \<lparr>index = 0, type = Some ''A'', entropy = 0, availableTiles = []\<rparr>,
               Some \<lparr>index = 1, type = Some '''', entropy = \<infinity>, availableTiles = []\<rparr>],
      rules = [(''A'', \<lparr>up = [], down = [], left = [], right = []\<rparr>)],
      weighting = Map.empty, bufferstate = ready, startWithRandom = True\<rparr>"

text \<open>
  \<open>neighbor\<close> is the neighbour index of a cell in a direction, as the four index
  computations of the source give it (\<open>-1\<close> for none); \<open>rule_list\<close> selects the list
  of a rule for a direction. \<open>grid\<close> holds of a state whose tile array is the full
  \<open>width * height\<close> array without holes, each tile carrying its position as index.
\<close>

definition neighbor :: "WFC \<Rightarrow> direction \<Rightarrow> int \<Rightarrow> int" where
  "neighbor s d i =
     (case d of Up \<Rightarrow> upTileIndex s i | Down \<Rightarrow> downTileIndex s i
      | Left \<Rightarrow> leftTileIndex s i | Right \<Rightarrow> rightTileIndex s i)"

definition opposite :: "direction \<Rightarrow> direction" where
  "opposite d = (case d of Up \<Rightarrow> Down | Down \<Rightarrow> Up | Left \<Rightarrow> Right | Right \<Rightarrow> Left)"

definition rule_list :: "direction \<Rightarrow> Rule \<Rightarrow> string list" where
  "rule_list d = (case d of Up \<Rightarrow> up | Down \<Rightarrow> down | Left \<Rightarrow> left | Right \<Rightarrow> right)"

definition grid :: "WFC \<Rightarrow> bool" where
  "grid s =
     (0 < width s \<and> length (tiles s) = nat (width s * height s)
      \<and> (\<forall>p < length (tiles s). \<exists>t. tiles s ! p = Some t \<and> index t = int p))"

text \<open>
  A cell is in step with its neighbours when its stored candidate list (\<open>avail_ok\<close>)
  and entropy (\<open>entropy_ok\<close>) are what \<^verbatim>\<open>_getEntropy\<close> would compute for it now;
  resolved cells and holes count as in step. \<open>empty_ok\<close> is the part of \<open>avail_ok\<close>
  that \<^verbatim>\<open>_getEntropy\<close> never establishes: a cell without constraint has no
  candidates stored. \<open>computed s n e\<close>: \<open>e\<close> is the entropy \<^verbatim>\<open>_getEntropy\<close> returns
  for cell \<open>n\<close>. \<open>sync_mono\<close> relates a state to a later one in which no cell has
  fallen out of step, and \<open>stage\<close> records for which cells a sequence of entropy
  computations and stores has established each part.
\<close>

definition avail_ok :: "WFC \<Rightarrow> nat \<Rightarrow> bool" where
  "avail_ok s p =
     (case tile_at (tiles s) (int p) of
        None \<Rightarrow> True
      | Some t \<Rightarrow>
          entropy t = 0 \<or>
          (case testArray s (int p) of
             Inl e \<Rightarrow> False
           | Inr ls \<Rightarrow>
               if ls = [] then availableTiles t = []
               else availableTiles t = consolodate ls \<and> consolodate ls \<noteq> []))"

definition entropy_ok :: "WFC \<Rightarrow> nat \<Rightarrow> bool" where
  "entropy_ok s p =
     (case tile_at (tiles s) (int p) of
        None \<Rightarrow> True
      | Some t \<Rightarrow>
          entropy t = 0 \<or>
          (case testArray s (int p) of
             Inl e \<Rightarrow> False
           | Inr ls \<Rightarrow> entropy t = (if ls = [] then \<infinity> else enat (length (consolodate ls)))))"

definition empty_ok :: "WFC \<Rightarrow> nat \<Rightarrow> bool" where
  "empty_ok s p =
     (case tile_at (tiles s) (int p) of
        None \<Rightarrow> True
      | Some t \<Rightarrow> entropy t = 0 \<or> testArray s (int p) \<noteq> Inr [] \<or> availableTiles t = [])"

definition computed :: "WFC \<Rightarrow> int \<Rightarrow> enat \<Rightarrow> bool" where
  "computed s n e =
     (case tile_at (tiles s) n of
        None \<Rightarrow> False
      | Some t \<Rightarrow>
          if entropy t = 0 then e = 0
          else e \<noteq> 0 \<and>
               (case testArray s n of
                  Inl x \<Rightarrow> False
                | Inr ls \<Rightarrow> e = (if ls = [] then \<infinity> else enat (length (consolodate ls)))))"

definition sync_mono :: "WFC \<Rightarrow> WFC \<Rightarrow> bool" where
  "sync_mono s s' =
     (frame s s' \<and> (\<forall>p. avail_ok s p \<longrightarrow> avail_ok s' p)
      \<and> (\<forall>p. entropy_ok s p \<longrightarrow> entropy_ok s' p)
      \<and> (\<forall>p. empty_ok s p \<longrightarrow> empty_ok s' p))"

definition stage :: "WFC \<Rightarrow> WFC \<Rightarrow> int set \<Rightarrow> int set \<Rightarrow> bool" where
  "stage s0 a A E =
     (sync_mono s0 a
      \<and> (\<forall>n \<in> A. n \<noteq> - 1 \<longrightarrow> empty_ok s0 (nat n) \<longrightarrow> avail_ok a (nat n))
      \<and> (\<forall>n \<in> E. n \<noteq> - 1 \<longrightarrow> entropy_ok a (nat n)))"

text \<open>
  \<open>listed_types\<close>: the types that the lists of the rules name, from which every
  candidate comes. \<open>weight_usable\<close>: a type is expanded to at least one copy by the
  weighted pick, that is, it has a positive weight, or it has none and is not named
  like a member of \<^verbatim>\<open>Object.prototype\<close>. \<open>weights_usable\<close>: so is every listed
  type, and the copies of all listed types together are fewer than \<open>2^32\<close>, the
  limit of an array. \<open>in_step\<close>: every cell is in step with its neighbours.
\<close>

definition listed_types :: "(string \<times> Rule) list \<Rightarrow> string list" where
  "listed_types rs = concat (map (\<lambda>(t, r). up r @ down r @ left r @ right r) rs)"

definition weight_usable :: "(string \<rightharpoonup> int) \<Rightarrow> string \<Rightarrow> bool" where
  "weight_usable w t =
     (case get_weight w t of Undefined \<Rightarrow> True | Own n \<Rightarrow> 0 < n | Inherited \<Rightarrow> False)"

definition weights_usable :: "WFC \<Rightarrow> bool" where
  "weights_usable s =
     (list_all (weight_usable (weighting s)) (listed_types (rules s))
      \<and> length (concat (map (expand_weighted (weighting s)) (listed_types (rules s)))) < 2 ^ 32)"

definition in_step :: "WFC \<Rightarrow> bool" where
  "in_step s = (\<forall>p. avail_ok s p \<and> entropy_ok s p)"

text \<open>
  \<open>allows rs a d b\<close>: type \<open>a\<close> has a rule whose list for direction \<open>d\<close> is empty or
  contains type \<open>b\<close> (an empty list is skipped by \<^verbatim>\<open>_getEntropy\<close> and constrains
  nothing). \<open>pair_ok\<close>: if a cell and its neighbour in a direction are both resolved,
  one of the two allows the other across their common edge. \<open>invariant\<close> is what the
  step loop maintains.
\<close>

definition allows :: "(string \<times> Rule) list \<Rightarrow> string option \<Rightarrow> direction \<Rightarrow> string option \<Rightarrow> bool" where
  "allows rs a d b =
     (case a of
        None \<Rightarrow> False
      | Some ta \<Rightarrow>
          (case map_of rs ta of
             None \<Rightarrow> False
           | Some r \<Rightarrow>
               rule_list d r = [] \<or>
               (case b of None \<Rightarrow> False | Some tb \<Rightarrow> tb \<in> set (rule_list d r))))"

definition pair_ok :: "WFC \<Rightarrow> int \<Rightarrow> direction \<Rightarrow> bool" where
  "pair_ok s i d =
     (case tile_at (tiles s) i of
        None \<Rightarrow> True
      | Some c \<Rightarrow>
          (case tile_at (tiles s) (neighbor s d i) of
             None \<Rightarrow> True
           | Some n \<Rightarrow>
               entropy c = 0 \<and> entropy n = 0 \<longrightarrow>
               allows (rules s) (type c) d (type n)
               \<or> allows (rules s) (type n) (opposite d) (type c)))"

definition pairs_ok :: "WFC \<Rightarrow> bool" where
  "pairs_ok s = (\<forall>i d. pair_ok s i d)"

definition invariant :: "WFC \<Rightarrow> bool" where
  "invariant s = (grid s \<and> in_step s \<and> pairs_ok s)"

text \<open>
  \<open>consistent_pair\<close>: the cell and its neighbour in a direction are both resolved and
  one of the two allows the other; \<open>weakly_consistent\<close>: so it is for every cell and
  direction of the grid. \<open>claimed_pair\<close> and \<open>locally_consistent\<close> are local
  consistency as the specification words it: the type of the neighbour in direction
  \<open>d\<close> of a resolved cell \<open>c\<close> is a member of \<open>rules[c.type][d]\<close>.
  \<open>rules_symmetric\<close>: no list of a rule is empty, and whenever the rule of \<open>a\<close> lists
  \<open>b\<close> for a direction, \<open>b\<close> has a rule that lists \<open>a\<close> for the opposite one.
  \<open>unresolved_grid\<close> is a full grid in which no cell is resolved and no candidate is
  stored, as the constructor, the resets and the pre-seeding operations leave it;
  \<open>seeded\<close> is such a grid after the random start: at most one cell is resolved.
\<close>

definition consistent_pair :: "WFC \<Rightarrow> int \<Rightarrow> direction \<Rightarrow> bool" where
  "consistent_pair s i d =
     (neighbor s d i = - 1 \<or>
      (case tile_at (tiles s) i of
         None \<Rightarrow> False
       | Some c \<Rightarrow>
           (case tile_at (tiles s) (neighbor s d i) of
              None \<Rightarrow> False
            | Some n \<Rightarrow>
                entropy c = 0 \<and> entropy n = 0
                \<and> (allows (rules s) (type c) d (type n)
                     \<or> allows (rules s) (type n) (opposite d) (type c)))))"

definition weakly_consistent :: "WFC \<Rightarrow> bool" where
  "weakly_consistent s =
     list_all (\<lambda>i. list_all (consistent_pair s (int i)) [Up, Down, Left, Right])
       [0..<length (tiles s)]"

definition claimed_pair :: "WFC \<Rightarrow> int \<Rightarrow> direction \<Rightarrow> bool" where
  "claimed_pair s i d =
     (case tile_at (tiles s) i of
        None \<Rightarrow> True
      | Some c \<Rightarrow>
          entropy c = 0 \<longrightarrow>
          neighbor s d i = - 1 \<or>
          (case tile_at (tiles s) (neighbor s d i) of
             None \<Rightarrow> False
           | Some n \<Rightarrow>
               (case type c of
                  None \<Rightarrow> False
                | Some tc \<Rightarrow>
                    (case map_of (rules s) tc of
                       None \<Rightarrow> False
                     | Some r \<Rightarrow>
                         (case type n of
                            None \<Rightarrow> False
                          | Some tn \<Rightarrow> tn \<in> set (rule_list d r))))))"

definition locally_consistent :: "WFC \<Rightarrow> bool" where
  "locally_consistent s =
     list_all (\<lambda>i. list_all (claimed_pair s (int i)) [Up, Down, Left, Right])
       [0..<length (tiles s)]"

definition rules_symmetric :: "(string \<times> Rule) list \<Rightarrow> bool" where
  "rules_symmetric rs =
     (\<forall>a ra d. map_of rs a = Some ra \<longrightarrow>
        rule_list d ra \<noteq> []
        \<and> (\<forall>b \<in> set (rule_list d ra).
              \<exists>rb. map_of rs b = Some rb \<and> a \<in> set (rule_list (opposite d) rb)))"

definition unresolved_grid :: "WFC \<Rightarrow> bool" where
  "unresolved_grid s =
     (grid s \<and> (\<forall>p < length (tiles s). \<forall>t. tiles s ! p = Some t
                   \<longrightarrow> entropy t \<noteq> 0 \<and> availableTiles t = []))"

definition seeded :: "WFC \<Rightarrow> bool" where
  "seeded s =
     (grid s
      \<and> (\<forall>i t. tile_at (tiles s) i = Some t \<longrightarrow> availableTiles t = [])
      \<and> (\<forall>i j ti tj. tile_at (tiles s) i = Some ti \<and> tile_at (tiles s) j = Some tj
            \<and> entropy ti = 0 \<and> entropy tj = 0 \<longrightarrow> i = j))"

text \<open>
  \<open>rules_asymmetric\<close>: type \<open>A\<close> admits \<open>B\<close> on every side, and \<open>B\<close> admits only
  \<open>B\<close>.
\<close>

definition rules_asymmetric :: "(string \<times> Rule) list" where
  "rules_asymmetric =
     [(''A'', \<lparr>up = [''B''], down = [''B''], left = [''B''], right = [''B'']\<rparr>),
      (''B'', \<lparr>up = [''B''], down = [''B''], left = [''B''], right = [''B'']\<rparr>)]"

text \<open>
  \<open>rules_inherited\<close>: the checkerboard rule set of the types \<open>A\<close> and
  \<open>constructor\<close>, the latter named like a member of \<^verbatim>\<open>Object.prototype\<close>.
\<close>

definition rules_inherited :: "(string \<times> Rule) list" where
  "rules_inherited =
     [(''A'', \<lparr>up = [''constructor''], down = [''constructor''],
              left = [''constructor''], right = [''constructor'']\<rparr>),
      (''constructor'', \<lparr>up = [''A''], down = [''A''], left = [''A''], right = [''A'']\<rparr>)]"
section \<open>The generator\<close>

lemma round_double_exact:
  "\<bar>m\<bar> < 2 ^ 53 \<Longrightarrow> - 1074 \<le> e \<Longrightarrow> e \<le> 971 \<Longrightarrow> round_double m e = Dyadic m e"
proof -
  assume m: "\<bar>m\<bar> < 2 ^ 53" and e: "- 1074 \<le> e" "e \<le> 971"
  have b: "bitlen \<bar>m\<bar> \<le> 53" using m by (simp add: bitlen_le_iff_power)
  then have k: "\<not> 0 < max (bitlen \<bar>m\<bar> - 53) (- 1074 - e)" using e by simp
  have "\<not> 1024 < bitlen \<bar>m\<bar> + e" using b e by simp
  moreover have "sgn m * \<bar>m\<bar> = m" by (simp add: mult_sgn_abs)
  ultimately show ?thesis
    unfolding round_double_def Let_def using k by simp
qed

lemma int_div_less:
  assumes "0 < (d :: int)" "m < c * d"
  shows "m div d < c"
proof -
  have "m div d * d + m mod d = m" by simp
  moreover have "0 \<le> m mod d" using assms(1) by simp
  ultimately have "m div d * d \<le> m" by linarith
  with assms(2) have "m div d * d < c * d" by simp
  with assms(1) show ?thesis by simp
qed

lemma round_half_even_bounds:
  "n div 2 ^ k \<le> round_half_even n k \<and> round_half_even n k \<le> n div 2 ^ k + 1"
  by (simp add: round_half_even_def Let_def)

lemma round_double_natural:
  assumes m: "0 \<le> m" and e: "0 \<le> e" and b: "bitlen m + e \<le> 1023"
  shows "\<exists>q e'. round_double m e = Dyadic q e' \<and> 0 \<le> q \<and> 0 \<le> e'
           \<and> bitlen q + e' \<le> bitlen m + e + 1"
proof (cases "bitlen m \<le> 53")
  case True
  then have k: "\<not> 0 < max (bitlen \<bar>m\<bar> - 53) (- 1074 - e)" using m e by simp
  have "round_double m e = Dyadic m e"
    unfolding round_double_def Let_def using k m b by (simp add: sgn_if)
  with m e show ?thesis by simp
next
  case False
  define k where "k = bitlen m - 53"
  have kpos: "0 < k" using False by (simp add: k_def)
  have mk: "max (bitlen \<bar>m\<bar> - 53) (- 1074 - e) = k" using m e kpos by (simp add: k_def)
  have mpos: "0 < m" using False m by (cases "m = 0") simp_all
  define q where "q = round_half_even m (nat k)"
  have "m < 2 ^ nat (bitlen m)" using bitlen_bounds[OF mpos] by simp
  also have "nat (bitlen m) = 53 + nat k" using kpos by (simp add: k_def)
  finally have "m < 2 ^ 53 * 2 ^ nat k" by (simp add: power_add)
  then have "m div 2 ^ nat k < 2 ^ 53"
    by (intro int_div_less) simp_all
  then have q53: "q \<le> 2 ^ 53" using round_half_even_bounds[of m "nat k"] by (simp add: q_def)
  have q0: "0 \<le> q"
  proof -
    have "0 \<le> m div 2 ^ nat k" using m by (simp add: pos_imp_zdiv_nonneg_iff)
    then show ?thesis using round_half_even_bounds[of m "nat k"] by (simp add: q_def)
  qed
  have "q < 2 ^ nat 54" using q53 by simp
  then have bq: "bitlen q \<le> 54" by (simp add: bitlen_le_iff_power)
  have ov: "\<not> 1024 < bitlen q + (e + k)" using bq b by (simp add: k_def)
  have "round_double m e = Dyadic q (e + k)"
    unfolding round_double_def Let_def mk using kpos m mpos ov by (simp add: q_def sgn_if)
  moreover have "bitlen q + (e + k) \<le> bitlen m + e + 1" using bq by (simp add: k_def)
  ultimately show ?thesis using q0 e kpos by simp
qed

lemma getRandom_natural:
  assumes "natural_seed r"
  shows "\<exists>s. 0 \<le> s \<and> s < 2 ^ 32 \<and> getRandom r = (Dyadic s (- 32), r\<lparr>seed := Integer s\<rparr>)"
proof -
  from assms obtain n where n: "seed r = Integer n" "0 \<le> n" "n < 2 ^ 1000"
    by (auto simp: natural_seed_def split: number.splits)
  have "1664525 * n < 2 ^ 21 * 2 ^ 1000" using n(2,3) by (intro mult_strict_mono) simp_all
  then have "1664525 * n < 2 ^ nat 1021" by (simp add: power_add[symmetric])
  then have b1: "bitlen (1664525 * n) + 0 \<le> 1023" by (simp add: bitlen_le_iff_power)
  have b1': "bitlen (1664525 * n) \<le> 1021"
    using \<open>1664525 * n < 2 ^ nat 1021\<close> by (simp add: bitlen_le_iff_power)
  from round_double_natural[OF _ _ b1] n(2) obtain q1 e1 where
    r1: "round_double (1664525 * n) 0 = Dyadic q1 e1" and q1: "0 \<le> q1" "0 \<le> e1"
    "bitlen q1 + e1 \<le> 1022" using b1' by fastforce
  have v1: "q1 * 2 ^ nat e1 < 2 ^ 1022"
  proof (cases "q1 = 0")
    case True then show ?thesis by simp
  next
    case False
    with q1 have "0 < q1" by simp
    from bitlen_bounds[OF this] have "q1 < 2 ^ nat (bitlen q1)" by simp
    then have "q1 * 2 ^ nat e1 < 2 ^ nat (bitlen q1) * 2 ^ nat e1" by simp
    also have "\<dots> = 2 ^ nat (bitlen q1 + e1)"
      using q1(2) bitlen_nonneg[of q1] by (simp add: power_add[symmetric] nat_add_distrib)
    also have "\<dots> \<le> 2 ^ 1022" using q1(3) by (intro power_increasing) simp_all
    finally show ?thesis .
  qed
  let ?m2 = "q1 * 2 ^ nat e1 + 1013904223"
  have m2: "0 \<le> ?m2" using q1 by simp
  have "?m2 < 2 ^ 1022 + 2 ^ 1022" using v1 by (intro add_strict_mono) simp_all
  then have "?m2 < 2 ^ nat 1023" by simp
  then have b2: "bitlen ?m2 + 0 \<le> 1023" by (simp add: bitlen_le_iff_power)
  from round_double_natural[OF m2 _ b2] obtain q2 e2 where
    r2: "round_double ?m2 0 = Dyadic q2 e2" and q2: "0 \<le> q2" "0 \<le> e2" by auto
  define s where "s = sgn q2 * ((\<bar>q2\<bar> * 2 ^ nat e2) mod 2 ^ 32)"
  have s: "0 \<le> s" "s < 2 ^ 32"
  proof -
    have a: "0 \<le> (\<bar>q2\<bar> * 2 ^ nat e2) mod 2 ^ 32" "(\<bar>q2\<bar> * 2 ^ nat e2) mod 2 ^ 32 < (2 ^ 32 :: int)"
      by simp_all
    show "0 \<le> s" using q2(1) a(1) unfolding s_def by (cases "q2 = 0") (simp_all add: sgn_if)
    show "s < 2 ^ 32" using q2(1) a(2) unfolding s_def by (cases "q2 = 0") (simp_all add: sgn_if)
  qed
  have "round_double s (- 32) = Dyadic s (- 32)"
    by (rule round_double_exact) (use s in simp_all)
  then have "getRandom r = (Dyadic s (- 32), r\<lparr>seed := Integer s\<rparr>)"
    unfolding getRandom_def Let_def n(1) times_number_def plus_number_def rem_number_def
      divide_pow2_def
    using r1 r2 q1(2) q2(2) by (simp add: s_def)
  with s show ?thesis by blast
qed

lemma pick_in_range:
  assumes s: "0 \<le> s" "s < 2 ^ 32" and n: "0 < n" "n < 2 ^ 32"
  shows "\<exists>i. Math_floor (times_number n (Dyadic s (- 32))) = Some i \<and> 0 \<le> i \<and> i < n"
proof (cases "bitlen (n * s) \<le> 53")
  case True
  have N0: "0 \<le> n * s" using s n by simp
  from True have "n * s < 2 ^ nat 53" by (simp add: bitlen_le_iff_power)
  then have "\<bar>n * s\<bar> < 2 ^ 53" using N0 by simp
  then have r: "round_double (n * s) (- 32) = Dyadic (n * s) (- 32)"
    by (rule round_double_exact) simp_all
  have "n * s < n * 2 ^ 32" using s n by simp
  then have "n * s div 2 ^ 32 < n" by (intro int_div_less) simp_all
  moreover have "0 \<le> n * s div 2 ^ 32" using N0 by (simp add: pos_imp_zdiv_nonneg_iff)
  ultimately show ?thesis by (simp add: times_number_def Math_floor_def r)
next
  case False
  define N where "N = n * s"
  define K where "K = nat (bitlen N - 53)"
  have Npos: "0 < N" using False unfolding N_def by (cases "n * s \<le> 0") (simp_all add: bitlen_eq_zero_iff[THEN iffD2])
  have "N < 2 ^ 32 * 2 ^ 32" unfolding N_def using s n by (intro mult_strict_mono) simp_all
  then have "N < 2 ^ nat 64" by simp
  then have b64: "bitlen N \<le> 64" by (simp add: bitlen_le_iff_power)
  have K: "0 < K" "K \<le> 11" "bitlen N - 53 = int K" using False b64 by (simp_all add: K_def N_def)
  have mk: "max (bitlen \<bar>N\<bar> - 53) (- 1074 - (- 32)) = int K" using K Npos by simp
  define q where "q = round_half_even N K"
  have qb: "N div 2 ^ K \<le> q" "q \<le> N div 2 ^ K + 1"
    using round_half_even_bounds[of N K] by (simp_all add: q_def)
  have "0 \<le> N div 2 ^ K" using Npos by (simp add: pos_imp_zdiv_nonneg_iff)
  with qb(1) have q0: "0 \<le> q" by simp
  \<comment> \<open>the list is longer than the rounding step\<close>
  have "2 ^ nat (bitlen N - 1) \<le> N" using bitlen_bounds[OF Npos] by simp
  moreover have "nat (bitlen N - 1) = K + 52" using K by simp
  ultimately have lo: "2 ^ K * 2 ^ 52 \<le> N" by (simp add: power_add)
  have "N < n * 2 ^ 32" unfolding N_def using s n by simp
  with lo have "2 ^ K * 2 ^ 52 < n * (2 ^ 32 :: int)" by simp
  then have "(2 ^ K * 2 ^ 20) * 2 ^ 32 < n * (2 ^ 32 :: int)" by simp
  then have big: "2 ^ K * 2 ^ 20 < n" by (simp only: mult_less_cancel_right) simp
  have "(2::int) * 2 ^ K \<le> 2 ^ K * 2 ^ 20" by simp
  with big have n2: "2 * 2 ^ K < n" by linarith
  define J where "J = 32 - K"
  have KJ: "K + J = 32" using K by (simp add: J_def)
  have "(2 :: int) ^ (K + J) = 2 ^ J * 2 ^ K" by (simp add: power_add)
  then have p32: "(2 ^ 32 :: int) = 2 ^ J * 2 ^ K" unfolding KJ .
  have "N \<le> n * (2 ^ 32 - 1)" unfolding N_def using s n by simp
  then have "N \<le> n * 2 ^ 32 - n" by (simp add: algebra_simps)
  moreover have "(0 :: int) < 2 ^ K" by simp
  ultimately have "N < n * 2 ^ 32 - 2 ^ K" using n2 by linarith
  also have "\<dots> = (n * 2 ^ J - 1) * 2 ^ K" unfolding p32 by (simp add: algebra_simps)
  finally have "N div 2 ^ K < n * 2 ^ J - 1" by (intro int_div_less) simp_all
  with qb(2) have qJ: "q < n * 2 ^ J" by simp
  then have fl: "q div 2 ^ J < n" by (intro int_div_less) simp_all
  have fl0: "0 \<le> q div 2 ^ J" using q0 by (simp add: pos_imp_zdiv_nonneg_iff)
  \<comment> \<open>no overflow\<close>
  have "q < 2 ^ 32 * 2 ^ 32"
  proof -
    have "(2 :: int) ^ J \<le> 2 ^ 32" by (rule power_increasing) (simp_all add: J_def)
    then have "n * 2 ^ J \<le> 2 ^ 32 * (2 ^ 32 :: int)"
      using n by (intro mult_mono) simp_all
    with qJ show ?thesis by simp
  qed
  then have "q < 2 ^ nat 64" by simp
  then have bq: "bitlen q \<le> 64" by (simp add: bitlen_le_iff_power)
  have ov: "\<not> 1024 < bitlen q + (- 32 + int K)" using bq K by simp
  have e': "- 32 + int K < 0" "nat (32 - int K) = J" using K by (simp_all add: J_def)
  have "round_double N (- 32) = Dyadic q (- 32 + int K)"
    unfolding round_double_def Let_def mk using K Npos ov by (simp add: q_def sgn_if)
  then have "Math_floor (times_number n (Dyadic s (- 32))) = Some (q div 2 ^ J)"
    using e' by (simp add: times_number_def Math_floor_def N_def)
  with fl fl0 show ?thesis by simp
qed

lemma snd_pickOne: "snd (pickOne r xs) = snd (getRandom r)"
  by (cases "getRandom r") (simp add: pickOne_def Let_def)

lemma fst_pickOne:
  "fst (pickOne r xs)
     = (case Math_floor (times_number (int (length xs)) (fst (getRandom r))) of
          None \<Rightarrow> None
        | Some i \<Rightarrow> element_at xs i)"
  by (cases "getRandom r") (simp add: pickOne_def Let_def)

lemma snd_pickOneWeighted: "snd (pickOneWeighted r xs w) = snd (getRandom r)"
  by (cases "getRandom r") (simp add: pickOneWeighted_def Let_def)

lemma fst_pickOneWeighted:
  "fst (pickOneWeighted r xs w)
     = (case Math_floor (times_number (int (length (concat (map (expand_weighted w) xs))))
                           (fst (getRandom r))) of
          None \<Rightarrow> None
        | Some i \<Rightarrow> element_at (concat (map (expand_weighted w) xs)) i)"
  by (cases "getRandom r") (simp add: pickOneWeighted_def Let_def)

lemma element_at_mem: "element_at xs i = Some x \<Longrightarrow> x \<in> set xs"
  by (auto simp: element_at_def split: if_splits)

lemma pickOne_Some_mem: "fst (pickOne r xs) = Some x \<Longrightarrow> x \<in> set xs"
  by (auto simp: fst_pickOne element_at_mem split: option.splits)


lemma natural_seed_getRandom: "natural_seed r \<Longrightarrow> natural_seed (snd (getRandom r))"
proof -
  assume "natural_seed r"
  from getRandom_natural[OF this] obtain s where
    s: "0 \<le> s" "s < 2 ^ 32" "getRandom r = (Dyadic s (- 32), r\<lparr>seed := Integer s\<rparr>)" by blast
  have "s < 2 ^ 1000" using s(2) by (rule less_trans) simp
  with s show ?thesis by (simp add: natural_seed_def)
qed

lemma floor_pick_natural:
  assumes "natural_seed r" "0 < n" "n < 2 ^ 32"
  shows "\<exists>i. Math_floor (times_number (int n) (fst (getRandom r))) = Some i \<and> 0 \<le> i \<and> i < int n"
proof -
  from getRandom_natural[OF assms(1)] obtain s where
    s: "0 \<le> s" "s < 2 ^ 32" "getRandom r = (Dyadic s (- 32), r\<lparr>seed := Integer s\<rparr>)" by blast
  have "0 < int n" "int n < 2 ^ 32" using assms(2,3) by simp_all
  from pick_in_range[OF s(1,2) this] show ?thesis by (simp add: s(3))
qed


lemma round_double_sign:
  assumes e: "- 1074 \<le> e"
  shows "round_double m e = Infinity
     \<or> (\<exists>q e'. round_double m e = Dyadic (sgn m * q) e' \<and> e \<le> e' \<and> 0 \<le> q \<and> (m \<noteq> 0 \<longrightarrow> 0 < q))"
proof (cases "bitlen \<bar>m\<bar> \<le> 53")
  case True
  then have k: "\<not> 0 < max (bitlen \<bar>m\<bar> - 53) (- 1074 - e)" using e by simp
  have "round_double m e = Infinity \<or> round_double m e = Dyadic (sgn m * \<bar>m\<bar>) e"
    unfolding round_double_def Let_def using k by simp
  moreover have "0 \<le> \<bar>m\<bar> \<and> (m \<noteq> 0 \<longrightarrow> 0 < \<bar>m\<bar>)" by simp
  ultimately show ?thesis by blast
next
  case False
  define k where "k = bitlen \<bar>m\<bar> - 53"
  have kpos: "0 < k" using False by (simp add: k_def)
  have mk: "max (bitlen \<bar>m\<bar> - 53) (- 1074 - e) = k" using e kpos by (simp add: k_def)
  have mpos: "0 < \<bar>m\<bar>" using False by (cases "m = 0") simp_all
  define q where "q = round_half_even \<bar>m\<bar> (nat k)"
  have lo: "2 ^ nat (bitlen \<bar>m\<bar> - 1) \<le> \<bar>m\<bar>" using bitlen_bounds[OF mpos] by simp
  have ex: "nat (bitlen \<bar>m\<bar> - 1) = nat k + 52" using kpos by (simp add: k_def)
  have "(2 :: int) ^ nat k \<le> 2 ^ (nat k + 52)" by (rule power_increasing) simp_all
  with lo have "2 ^ nat k \<le> \<bar>m\<bar>" unfolding ex by linarith
  then have "(2 :: int) ^ nat k div 2 ^ nat k \<le> \<bar>m\<bar> div 2 ^ nat k"
    by (rule zdiv_mono1) simp
  then have "1 \<le> \<bar>m\<bar> div 2 ^ nat k" by simp
  then have q: "0 < q" using round_half_even_bounds[of "\<bar>m\<bar>" "nat k"] by (simp add: q_def)
  have "round_double m e = Infinity \<or> round_double m e = Dyadic (sgn m * q) (e + k)"
    unfolding round_double_def Let_def mk using kpos by (simp add: q_def)
  moreover have "e \<le> e + k \<and> 0 \<le> q \<and> (m \<noteq> 0 \<longrightarrow> 0 < q)" using q kpos by simp
  ultimately show ?thesis by blast
qed

lemma whole_seed_cases:
  assumes "whole_seed r"
  obtains n where "seed r = Integer n" | "seed r = Infinity" | "seed r = NaN"
  using assms by (cases "seed r") (auto simp: whole_seed_def)

lemma getRandom_whole:
  assumes "whole_seed r"
  shows "getRandom r = (NaN, r\<lparr>seed := NaN\<rparr>)
     \<or> (\<exists>s. \<bar>s\<bar> < 2 ^ 32 \<and> getRandom r = (Dyadic s (- 32), r\<lparr>seed := Integer s\<rparr>))"
  using assms
proof (cases rule: whole_seed_cases)
  case 2
  then show ?thesis
    by (simp add: getRandom_def Let_def times_number_def plus_number_def rem_number_def divide_pow2_def)
next
  case 3
  then show ?thesis
    by (simp add: getRandom_def Let_def times_number_def plus_number_def rem_number_def divide_pow2_def)
next
  case (1 n)
  show ?thesis
  proof (cases "round_double (1664525 * n) 0")
    case Infinity
    with 1 show ?thesis
      by (simp add: getRandom_def Let_def times_number_def plus_number_def rem_number_def divide_pow2_def)
  next
    case NaN
    with 1 show ?thesis
      by (simp add: getRandom_def Let_def times_number_def plus_number_def rem_number_def divide_pow2_def)
  next
    case (Dyadic q1 e1)
    from round_double_sign[of 0 "1664525 * n"] Dyadic have e1: "0 \<le> e1" by auto
    show ?thesis
    proof (cases "round_double (q1 * 2 ^ nat e1 + 1013904223) 0")
      case Infinity
      with 1 Dyadic e1 show ?thesis
        by (simp add: getRandom_def Let_def times_number_def plus_number_def rem_number_def divide_pow2_def)
    next
      case NaN
      with 1 Dyadic e1 show ?thesis
        by (simp add: getRandom_def Let_def times_number_def plus_number_def rem_number_def divide_pow2_def)
    next
      case d2: (Dyadic q2 e2)
      from round_double_sign[of 0 "q1 * 2 ^ nat e1 + 1013904223"] d2 have e2: "0 \<le> e2" by auto
      define s where "s = sgn q2 * ((\<bar>q2\<bar> * 2 ^ nat e2) mod 2 ^ 32)"
      have a: "0 \<le> (\<bar>q2\<bar> * 2 ^ nat e2) mod 2 ^ 32" "(\<bar>q2\<bar> * 2 ^ nat e2) mod 2 ^ 32 < (2 ^ 32 :: int)"
        by simp_all
      then have s: "\<bar>s\<bar> < 2 ^ 32" unfolding s_def by (simp add: abs_mult sgn_if)
      have "round_double s (- 32) = Dyadic s (- 32)"
        by (rule round_double_exact) (use s in simp_all)
      then have "getRandom r = (Dyadic s (- 32), r\<lparr>seed := Integer s\<rparr>)"
        unfolding getRandom_def Let_def 1 times_number_def plus_number_def rem_number_def
          divide_pow2_def
        using Dyadic d2 e1 e2 by (simp add: s_def)
      with s show ?thesis by blast
    qed
  qed
qed

lemma whole_seed_getRandom: "whole_seed r \<Longrightarrow> whole_seed (snd (getRandom r))"
  using getRandom_whole[of r] by (auto simp: whole_seed_def)

lemma natural_seed_whole: "natural_seed r \<Longrightarrow> whole_seed r"
  by (auto simp: natural_seed_def whole_seed_def split: number.splits)

lemma floor_negative:
  assumes s: "s < 0" and n: "0 < n" and f: "Math_floor (times_number n (Dyadic s (- 32))) = Some i"
  shows "i < 0"
proof -
  have ns: "n * s < 0" using s n by (simp add: mult_pos_neg)
  from round_double_sign[of "- 32" "n * s"] f obtain q e' where
    r: "round_double (n * s) (- 32) = Dyadic (sgn (n * s) * q) e'" and q: "0 < q"
    using ns by (auto simp: times_number_def Math_floor_def)
  have "sgn (n * s) = - 1" using ns by simp
  then have neg: "sgn (n * s) * q < 0" using q by simp
  show ?thesis
  proof (cases "0 \<le> e'")
    case True
    with f r neg show ?thesis
      by (auto simp: times_number_def Math_floor_def mult_neg_pos)
  next
    case False
    have "sgn (n * s) * q div 2 ^ nat (- e') < 0" using neg by (simp add: div_neg_pos_less0)
    with f r False show ?thesis by (auto simp: times_number_def Math_floor_def)
  qed
qed

lemma pickOne_whole_natural:
  assumes w: "whole_seed r" and p: "fst (pickOne r xs) = Some x"
  shows "natural_seed (snd (getRandom r))"
proof -
  let ?f = "Math_floor (times_number (int (length xs)) (fst (getRandom r)))"
  from p have "(case ?f of None \<Rightarrow> None | Some i \<Rightarrow> element_at xs i) = Some x"
    by (simp only: fst_pickOne)
  then obtain i where i: "?f = Some i" and el: "element_at xs i = Some x"
    by (cases ?f) simp_all
  from el have ir: "0 \<le> i" "i < int (length xs)"
    by (simp_all add: element_at_def split: if_splits)
  then have len: "0 < int (length xs)" by linarith
  from getRandom_whole[OF w] show ?thesis
  proof
    assume "getRandom r = (NaN, r\<lparr>seed := NaN\<rparr>)"
    with i show ?thesis by (simp add: times_number_def Math_floor_def)
  next
    assume "\<exists>s. \<bar>s\<bar> < 2 ^ 32 \<and> getRandom r = (Dyadic s (- 32), r\<lparr>seed := Integer s\<rparr>)"
    then obtain s where s: "\<bar>s\<bar> < 2 ^ 32" "getRandom r = (Dyadic s (- 32), r\<lparr>seed := Integer s\<rparr>)"
      by blast
    from i have fl: "Math_floor (times_number (int (length xs)) (Dyadic s (- 32))) = Some i"
      by (simp add: s(2))
    have s0: "0 \<le> s"
    proof (rule ccontr)
      assume "\<not> 0 \<le> s"
      then have "s < 0" by simp
      from floor_negative[OF this len fl] ir(1) show False by simp
    qed
    have "s < 2 ^ 32" using s(1) by simp
    also have "(2 ^ 32 :: int) < 2 ^ 1000" by simp
    finally have "s < 2 ^ 1000" .
    with s0 show ?thesis by (simp add: s(2) natural_seed_def)
  qed
qed

text \<open>The rounding of a mantissa that is \<open>k\<close> bits too long.\<close>

lemma round_double_cut:
  fixes k :: nat
  assumes lo: "2 ^ (52 + k) \<le> \<bar>m\<bar>" and hi: "\<bar>m\<bar> < 2 ^ (53 + k)" and k: "0 < k"
    and e: "- 1074 - e \<le> int k" "e + int k \<le> 970"
  shows "round_double m e = Dyadic (sgn m * round_half_even \<bar>m\<bar> k) (e + int k)"
proof -
  have n1: "nat (int (53 + k)) = 53 + k" "nat (int (53 + k)) - 1 = 52 + k" by simp_all
  have "bitlen \<bar>m\<bar> \<le> int (53 + k)"
    unfolding bitlen_le_iff_power n1 using hi by simp
  moreover have "int (53 + k) \<le> bitlen \<bar>m\<bar>"
    unfolding bitlen_ge_iff_power n1 using lo by simp
  ultimately have b: "bitlen \<bar>m\<bar> = 53 + int k" by simp
  have mk: "max (bitlen \<bar>m\<bar> - 53) (- 1074 - e) = int k" using e(1) by (simp add: b)
  define q where "q = round_half_even \<bar>m\<bar> k"
  have "\<bar>m\<bar> < 2 ^ 53 * 2 ^ k" using hi by (simp add: power_add)
  then have "\<bar>m\<bar> div 2 ^ k < 2 ^ 53" by (intro int_div_less) simp_all
  then have "q < 2 ^ nat 54" using round_half_even_bounds[of "\<bar>m\<bar>" k] by (simp add: q_def)
  then have "bitlen q \<le> 54" by (simp add: bitlen_le_iff_power)
  then have ov: "\<not> 1024 < bitlen q + (e + int k)" using e(2) by simp
  show ?thesis unfolding round_double_def Let_def mk using k ov by (simp add: q_def)
qed

section \<open>Evaluating the model on concrete inputs\<close>

lemmas wfc_eval =
  tile_at_def array_set_def modify_tile_def present_def js_rem_def element_at_def
  expand_weighted_def get_weight_def object_prototype_keys_def pickOneWeighted_def pickOne_def
  getRandom_def times_number_def plus_number_def rem_number_def divide_pow2_def Math_floor_def
  round_double_exact truthy_number_def
  isDataReady_def getTileData_def upTileIndex_def downTileIndex_def rightTileIndex_def
  leftTileIndex_def neighborAvailableTiles_def consolodate_def testArray_def getEntropy_def
  neighborEntropy_def truthy_def set_entropy_def storeLeftEntropy_def storeEntropy_def
  setEntropyOfSurroundingTiles_def getNumberOfRemainingTilesToCollapse_def
  getListofTilesWithLowestEntropy_def prepareTileDataForCollapsing_def not_chosen_def
  collapseNext_def randomStart_def Let_def WFC_constructor_def setRules_def fresh_tile_def
  setTiles_def setTiles_entry_def setTileData_def resetRules_def generateLevel_def
  upt_rec zero_enat_def one_enat_def numeral_eq_enat

lemma run_checker_2_1:
  "generateLevel (setRules rules_checker (WFC_constructor 2 1 (Some (Integer 1)) 0)) =
     Some (Inr None,
       \<lparr>width = 2, height = 1, numTiles = 2, rnd = \<lparr>seed = Integer 3027450565\<rparr>,
        tiles = [Some \<lparr>index = 0, type = Some ''A'', entropy = 0, availableTiles = []\<rparr>,
                 Some \<lparr>index = 1, type = Some ''B'', entropy = 0, availableTiles = [''B'']\<rparr>],
        rules = rules_checker, weighting = Map.empty, bufferstate = collapsed,
        startWithRandom = True\<rparr>)"
  apply (simp add: rules_checker_def wfc_eval)
  apply (subst run_steps.simps)
  apply (simp add: rules_checker_def wfc_eval)
  done

lemma run_checker_seed0_now1:
  "map_option (\<lambda>(r, s). map (map_option type) (tiles s))
     (generateLevel (setRules rules_checker (WFC_constructor 2 1 (Some (Integer 0)) 1)))
     = Some [Some (Some ''A''), Some (Some ''B'')]"
  apply (simp add: rules_checker_def wfc_eval)
  apply (subst run_steps.simps)
  apply (simp add: rules_checker_def wfc_eval)
  done

lemma run_checker_seed0_now3:
  "map_option (\<lambda>(r, s). map (map_option type) (tiles s))
     (generateLevel (setRules rules_checker (WFC_constructor 2 1 (Some (Integer 0)) 3)))
     = Some [Some (Some ''B''), Some (Some ''A'')]"
  apply (simp add: rules_checker_def wfc_eval)
  apply (subst run_steps.simps)
  apply (simp add: rules_checker_def wfc_eval)
  done

text \<open>
  The same rules and seed \<open>0\<close> at two present-day values of the clock, one
  millisecond apart; the first product of the generator is rounded.
\<close>

lemma run_checker_seed0_now1762158000001:
  "map_option (\<lambda>(r, s). map (map_option type) (tiles s))
     (generateLevel (setRules rules_checker (WFC_constructor 2 1 (Some (Integer 0)) 1762158000001)))
     = Some [Some (Some ''B''), Some (Some ''A'')]"
  apply (simp add: rules_checker_def wfc_eval round_double_cut[where k = 9] round_half_even_def)
  apply (subst run_steps.simps)
  apply (simp add: rules_checker_def wfc_eval)
  done

lemma run_checker_seed0_now1762158000002:
  "map_option (\<lambda>(r, s). map (map_option type) (tiles s))
     (generateLevel (setRules rules_checker (WFC_constructor 2 1 (Some (Integer 0)) 1762158000002)))
     = Some [Some (Some ''A''), Some (Some ''B'')]"
  apply (simp add: rules_checker_def wfc_eval round_double_cut[where k = 9] round_half_even_def)
  apply (subst run_steps.simps)
  apply (simp add: rules_checker_def wfc_eval)
  done

text \<open>A pick with a negative generator state: the index is \<open>-1\<close>.\<close>

lemma pickOne_negative_seed:
  "pickOne \<lparr>seed = Integer (- 1000)\<rparr> [''a'', ''b'', ''c'']
     = (None, \<lparr>seed = Integer (- 650620777)\<rparr>)"
  by (simp add: wfc_eval)
section \<open>What propagation leaves alone\<close>

lemma tile_frame_refl: "tile_frame a a"
  by (simp add: tile_frame_def split: option.splits)

lemma tile_frame_trans: "tile_frame a b \<Longrightarrow> tile_frame b c \<Longrightarrow> tile_frame a c"
  by (auto simp: tile_frame_def split: option.splits)

lemma frame_refl: "frame s s"
  by (simp add: frame_def tile_frame_refl)

lemma frame_trans: "frame s s' \<Longrightarrow> frame s' s'' \<Longrightarrow> frame s s''"
  unfolding frame_def using tile_frame_trans by (metis (no_types, lifting))

lemma frame_tile_at: "frame s s' \<Longrightarrow> tile_frame (tile_at (tiles s) j) (tile_at (tiles s') j)"
  by (auto simp: frame_def tile_at_def tile_frame_refl)

lemma frame_modify:
  assumes "tile_at (tiles s) (int p) = Some t" and "tile_frame (Some t) (Some (f t))"
  shows "frame s (modify_tile p f s)"
  using assms
  by (auto simp: frame_def modify_tile_def tile_at_def nth_list_update tile_frame_refl
           split: if_splits)

lemma frame_modify_avail:
  "tile_at (tiles s) (int p) = Some t \<Longrightarrow> entropy t \<noteq> 0
   \<Longrightarrow> frame s (modify_tile p (\<lambda>t. t\<lparr>availableTiles := c\<rparr>) s)"
  by (rule frame_modify) (auto simp: tile_frame_def)

lemma frame_set_entropy:
  "tile_at (tiles s) n = Some t \<Longrightarrow> entropy t \<noteq> 0 \<Longrightarrow> e \<noteq> 0 \<Longrightarrow> frame s (set_entropy n e s)"
  unfolding set_entropy_def
  by (rule frame_modify[where t = t]) (auto simp: tile_frame_def tile_at_def split: if_splits)

lemma tile_at_nat: "tile_at ts i = Some t \<Longrightarrow> int (nat i) = i"
  by (auto simp: tile_at_def split: if_splits)

lemma getEntropy_frame:
  assumes "getEntropy s n = Inr (e, s')"
  shows "frame s s' \<and> (\<exists>t. tile_at (tiles s) n = Some t \<and> (e = 0 \<longleftrightarrow> entropy t = 0))"
proof -
  from assms obtain t where t: "tile_at (tiles s) n = Some t"
    by (auto simp: getEntropy_def split: option.splits)
  have n: "int (nat n) = n" using t by (rule tile_at_nat)
  show ?thesis
  proof (cases "entropy t = 0")
    case True
    with assms t show ?thesis by (simp add: getEntropy_def frame_refl)
  next
    case False
    have fr: "\<And>c. frame s (modify_tile (nat n) (\<lambda>t. t\<lparr>availableTiles := c\<rparr>) s)"
      using frame_modify_avail[of s "nat n" t] t False n by simp
    from assms t False have "frame s s' \<and> e \<noteq> 0"
      by (auto simp: getEntropy_def Let_def frame_refl fr zero_enat_def split: sum.splits if_splits)
    with t False show ?thesis by simp
  qed
qed

lemma neighborEntropy_frame:
  assumes "neighborEntropy s n d = Inr (eo, s')"
  shows "frame s s' \<and> (truthy eo \<longrightarrow> (\<exists>t. tile_at (tiles s) n = Some t \<and> entropy t \<noteq> 0))"
  using assms getEntropy_frame[of s n]
  by (auto simp: neighborEntropy_def truthy_def frame_refl split: if_splits sum.splits)

lemma frame_unresolved:
  "frame s s' \<Longrightarrow> tile_at (tiles s) n = Some t \<Longrightarrow> entropy t \<noteq> 0
   \<Longrightarrow> \<exists>t'. tile_at (tiles s') n = Some t' \<and> entropy t' \<noteq> 0"
  using frame_tile_at[of s s' n] by (auto simp: tile_frame_def split: option.splits)

lemma frame_storeEntropy:
  assumes "frame s0 s" and "truthy eo \<longrightarrow> (\<exists>t. tile_at (tiles s0) n = Some t \<and> entropy t \<noteq> 0)"
  shows "frame s0 (storeEntropy n eo s)"
proof (cases "n \<noteq> - 1 \<and> truthy eo")
  case False
  with assms show ?thesis by (auto simp: storeEntropy_def)
next
  case True
  with assms obtain t where "tile_at (tiles s0) n = Some t" "entropy t \<noteq> 0" "truthy eo" by auto
  then obtain t' where "tile_at (tiles s) n = Some t'" "entropy t' \<noteq> 0"
    using frame_unresolved[OF assms(1)] by blast
  moreover have "the eo \<noteq> 0" using \<open>truthy eo\<close> by (auto simp: truthy_def split: option.splits)
  ultimately have "frame s (set_entropy n (the eo) s)" by (rule frame_set_entropy)
  with assms(1) True show ?thesis by (auto simp: storeEntropy_def intro: frame_trans)
qed

lemma storeLeftEntropy_eq: "storeLeftEntropy n eo s = storeEntropy n eo s \<or> storeLeftEntropy n eo s = s"
  by (simp add: storeLeftEntropy_def storeEntropy_def)

lemma frame_storeLeftEntropy:
  assumes "frame s0 s" and "truthy eo \<longrightarrow> (\<exists>t. tile_at (tiles s0) n = Some t \<and> entropy t \<noteq> 0)"
  shows "frame s0 (storeLeftEntropy n eo s)"
  using storeLeftEntropy_eq[of n eo s] frame_storeEntropy[OF assms] assms(1) by auto

lemma setEntropyOfSurroundingTiles_frame:
  assumes "setEntropyOfSurroundingTiles s i = (r, s')"
  shows "frame s s'"
proof -
  let ?u = "upTileIndex s i" and ?d = "downTileIndex s i"
  let ?l = "leftTileIndex s i" and ?r = "rightTileIndex s i"
  show ?thesis
  proof (cases "neighborEntropy s ?u Up")
    case (Inl e) with assms show ?thesis
      by (simp add: setEntropyOfSurroundingTiles_def Let_def frame_refl)
  next
    case (Inr a1)
    obtain e1 s1 where a1: "a1 = (e1, s1)" by (cases a1)
    note n1 = neighborEntropy_frame[OF Inr[unfolded a1]]
    show ?thesis
    proof (cases "neighborEntropy s1 ?d Down")
      case (Inl e) with assms Inr a1 n1 show ?thesis
        by (simp add: setEntropyOfSurroundingTiles_def Let_def)
    next
      case (Inr a2)
      obtain e2 s2 where a2: "a2 = (e2, s2)" by (cases a2)
      note n2 = neighborEntropy_frame[OF Inr[unfolded a2]]
      have f2: "frame s s2" using n1 n2 frame_trans by blast
      show ?thesis
      proof (cases "neighborEntropy s2 ?l Left")
        case (Inl e) with assms \<open>neighborEntropy s ?u Up = Inr a1\<close> a1 Inr a2 f2 show ?thesis
          by (simp add: setEntropyOfSurroundingTiles_def Let_def)
      next
        case (Inr a3)
        obtain e3 s3 where a3: "a3 = (e3, s3)" by (cases a3)
        note n3 = neighborEntropy_frame[OF Inr[unfolded a3]]
        have f3: "frame s s3" using f2 n3 frame_trans by blast
        show ?thesis
        proof (cases "neighborEntropy s3 ?r Right")
          case (Inl e) with assms \<open>neighborEntropy s ?u Up = Inr a1\<close> a1
              \<open>neighborEntropy s1 ?d Down = Inr a2\<close> a2 Inr a3 f3 show ?thesis
            by (simp add: setEntropyOfSurroundingTiles_def Let_def)
        next
          case (Inr a4)
          obtain e4 s4 where a4: "a4 = (e4, s4)" by (cases a4)
          note n4 = neighborEntropy_frame[OF Inr[unfolded a4]]
          have f4: "frame s s4" using f3 n4 frame_trans by blast
          have u1: "truthy e1 \<longrightarrow> (\<exists>t. tile_at (tiles s4) ?u = Some t \<and> entropy t \<noteq> 0)"
            using n1 n2 n3 n4 frame_unresolved frame_trans by (metis (no_types, lifting) f4)
          have u2: "truthy e2 \<longrightarrow> (\<exists>t. tile_at (tiles s4) ?d = Some t \<and> entropy t \<noteq> 0)"
            using n2 n3 n4 frame_unresolved frame_trans by (metis (no_types, lifting))
          have u3: "truthy e3 \<longrightarrow> (\<exists>t. tile_at (tiles s4) ?l = Some t \<and> entropy t \<noteq> 0)"
            using n3 n4 frame_unresolved by (metis (no_types, lifting))
          have u4: "truthy e4 \<longrightarrow> (\<exists>t. tile_at (tiles s4) ?r = Some t \<and> entropy t \<noteq> 0)"
            using n4 frame_unresolved by (metis (no_types, lifting))
          have g5: "frame s4 (storeLeftEntropy ?l e3 s4)"
            by (rule frame_storeLeftEntropy[OF frame_refl u3])
          note g6 = frame_storeEntropy[OF g5 u4]
          note g7 = frame_storeEntropy[OF g6 u1]
          note g8 = frame_storeEntropy[OF g7 u2]
          have "s' = storeEntropy ?d e2 (storeEntropy ?u e1 (storeEntropy ?r e4 (storeLeftEntropy ?l e3 s4)))"
            using assms \<open>neighborEntropy s ?u Up = Inr a1\<close> a1
              \<open>neighborEntropy s1 ?d Down = Inr a2\<close> a2
              \<open>neighborEntropy s2 ?l Left = Inr a3\<close> a3 Inr a4
            by (simp add: setEntropyOfSurroundingTiles_def Let_def)
          with f4 g8 show ?thesis using frame_trans by blast
        qed
      qed
    qed
  qed
qed

section \<open>Writes to the tile array\<close>

lemma tile_at_array_set:
  "tile_at (array_set xs i v) j = (if 0 \<le> i \<and> j = i then Some v else tile_at xs j)"
  by (auto simp: tile_at_def array_set_def nth_append nth_list_update nat_less_iff
           split: if_splits)

lemma tile_at_setTiles_entry:
  "tile_at (setTiles_entry e ts) j =
     (if 0 < entry_index e \<and> j = entry_index e
      then Some \<lparr>index = entry_index e, type = entry_type e, entropy = \<infinity>, availableTiles = []\<rparr>
      else tile_at ts j)"
  by (auto simp: setTiles_entry_def tile_at_array_set)

lemma find_snoc:
  "find P (xs @ [x]) = (case find P xs of None \<Rightarrow> (if P x then Some x else None) | Some y \<Rightarrow> Some y)"
  by (induction xs) auto

lemma tile_at_fold_setTiles_entry:
  "tile_at (fold setTiles_entry es ts) j =
     (if j \<le> 0 then tile_at ts j
      else case find (\<lambda>e. entry_index e = j) (rev es) of
             None \<Rightarrow> tile_at ts j
           | Some e \<Rightarrow> Some \<lparr>index = j, type = entry_type e, entropy = \<infinity>, availableTiles = []\<rparr>)"
proof (induction es arbitrary: ts)
  case Nil
  then show ?case by simp
next
  case (Cons e es)
  show ?case
    by (auto simp: Cons.IH tile_at_setTiles_entry find_snoc split: option.splits)
qed

lemma setTiles_entry_zero: "entry_index e = 0 \<Longrightarrow> setTiles_entry e ts = ts"
  by (simp add: setTiles_entry_def)

lemma fold_setTiles_entry_filter:
  "fold setTiles_entry (filter (\<lambda>e. entry_index e \<noteq> 0) es) ts = fold setTiles_entry es ts"
  by (induction es arbitrary: ts) (auto simp: setTiles_entry_zero)

lemma setTiles_entry_tile: "setTiles_entry (e\<lparr>entry_tile := t\<rparr>) ts = setTiles_entry e ts"
  by (simp add: setTiles_entry_def)

lemma fold_setTiles_entry_tile:
  "fold setTiles_entry (map (\<lambda>e. e\<lparr>entry_tile := g e\<rparr>) es) ts = fold setTiles_entry es ts"
  by (induction es arbitrary: ts) (auto simp: setTiles_entry_tile)

section \<open>The entropy of a cell\<close>

lemma foldl_filter_all:
  "foldl (\<lambda>sum arr. filter (\<lambda>x. x \<in> set arr) sum) init ls
     = filter (\<lambda>x. list_all (\<lambda>l. x \<in> set l) ls) init"
proof (induction ls arbitrary: init)
  case Nil
  then show ?case by simp
next
  case (Cons l ls)
  show ?case by (simp add: Cons.IH conj_commute)
qed

lemma consolodate_eq: "consolodate ls = intersection_in_order ls"
  by (simp add: consolodate_def intersection_in_order_def foldl_filter_all)

lemma neighborAvailableTiles_readable:
  "neighbor_readable s n \<Longrightarrow>
   neighborAvailableTiles s n sel
     = Inr (case spec_neighbor_list s n sel of None \<Rightarrow> [] | Some l \<Rightarrow> l)"
  by (auto simp: neighbor_readable_def neighborAvailableTiles_def spec_neighbor_list_def
           split: option.splits)

lemma filter_opt_list:
  "filter (\<lambda>l. l \<noteq> []) (case x of None \<Rightarrow> [] | Some l \<Rightarrow> [l])
     = filter (\<lambda>l. l \<noteq> []) [case x of None \<Rightarrow> [] | Some l \<Rightarrow> l]"
  by (cases x) auto

lemma testArray_readable:
  assumes "neighbors_readable s i"
  shows "testArray s i = Inr (nonempty_contributed s i)"
proof -
  from assms have r: "neighbor_readable s (upTileIndex s i)" "neighbor_readable s (downTileIndex s i)"
    "neighbor_readable s (leftTileIndex s i)" "neighbor_readable s (rightTileIndex s i)"
    by (simp_all add: neighbors_readable_def)
  have f: "\<And>x y. filter (\<lambda>l. l \<noteq> []) (x # y) = filter (\<lambda>l. l \<noteq> []) [x] @ filter (\<lambda>l. l \<noteq> []) y"
    by simp
  show ?thesis
    unfolding testArray_def nonempty_contributed_def spec_contributed_def
      neighborAvailableTiles_readable[OF r(1)] neighborAvailableTiles_readable[OF r(2)]
      neighborAvailableTiles_readable[OF r(3)] neighborAvailableTiles_readable[OF r(4)]
    by (simp add: filter_opt_list del: filter.simps) (simp split: option.splits)
qed

lemma line3_readable: "neighbors_readable line3_seeded 1"
  by (simp add: neighbors_readable_def neighbor_readable_def line3_seeded_def rules_undeclared_def
        wfc_eval)

section \<open>The step loop: anatomy and termination\<close>

lemma set_present: "(p, t) \<in> set (present xs) \<longleftrightarrow> p < length xs \<and> xs ! p = Some t"
proof -
  have "(p, t) \<in> set (present xs) \<longleftrightarrow> (p, Some t) \<in> set (zip [0..<length xs] xs)"
    by (auto simp: present_def split: option.splits)
  also have "\<dots> \<longleftrightarrow> p < length xs \<and> xs ! p = Some t"
  proof
    assume "(p, Some t) \<in> set (zip [0..<length xs] xs)"
    then show "p < length xs \<and> xs ! p = Some t" by (auto simp: set_zip)
  next
    assume a: "p < length xs \<and> xs ! p = Some t"
    then have "(p, Some t) = ([0..<length xs] ! p, xs ! p)" by simp
    with a show "(p, Some t) \<in> set (zip [0..<length xs] xs)"
      unfolding set_zip by (metis (mono_tags, lifting) length_upt mem_Collect_eq min.idem minus_nat.diff_0)
  qed
  finally show ?thesis .
qed

lemma fold_min_in: "fold min xs (a :: 'a :: linorder) \<in> insert a (set xs)"
  by (induction xs arbitrary: a) (auto simp: min_def)

lemma lowest_member:
  assumes "(p, t) \<in> set (getListofTilesWithLowestEntropy s)"
  shows "p < length (tiles s) \<and> tiles s ! p = Some t \<and> entropy t \<noteq> 0"
proof -
  let ?f = "filter (\<lambda>(p, t). entropy t \<noteq> 0) (present (tiles s))"
  let ?m = "fold min (map (\<lambda>(p, element). entropy element) ?f) \<infinity>"
  from assms have pt: "(p, t) \<in> set (present (tiles s))" and e: "entropy t = ?m"
    by (auto simp: getListofTilesWithLowestEntropy_def Let_def)
  have "?m \<in> insert \<infinity> (set (map (\<lambda>(p, element). entropy element) ?f))"
    by (rule fold_min_in)
  then have "?m \<noteq> 0" by auto
  with pt e show ?thesis by (simp add: set_present)
qed

lemma filter_not_chosen_Nil: "filter (not_chosen []) xs = xs"
  by (simp add: not_chosen_def)

text \<open>The anatomy of one resumption.\<close>

lemma pickOne_pair: "pickOne r xs = (fst (pickOne r xs), snd (getRandom r))"
  using snd_pickOne[of r xs] by (cases "pickOne r xs") simp

lemma collapseNext_unfold:
  assumes g: "getListofTilesWithLowestEntropy s \<noteq> []"
    and pc: "fst (pickOne (rnd s) (getListofTilesWithLowestEntropy s)) = Some (p, cur)"
    and pw: "pickOneWeighted (snd (getRandom (rnd s))) (availableTiles cur) (weighting s) = (ty, r2)"
    and pr: "setEntropyOfSurroundingTiles (attempt s p cur ty r2) (index cur) = (thrown, s3)"
  shows "collapseNext s =
     (if availableTiles cur = [] then (Inl Contradiction, s\<lparr>rnd := snd (getRandom (rnd s))\<rparr>)
      else case thrown of
             Some e \<Rightarrow> (Inl CollapseFailed, s3)
           | None \<Rightarrow>
               if getNumberOfRemainingTilesToCollapse s3 = 0 then (Inr True, s3)
               else if list_ex (\<lambda>(p, tile). type tile = None) (present (tiles s3))
               then (Inl CorruptState, s3)
               else (Inr False, s3))"
proof -
  have pk: "pickOne (rnd s) (getListofTilesWithLowestEntropy s)
              = (Some (p, cur), snd (getRandom (rnd s)))"
    using pickOne_pair[of "rnd s" "getListofTilesWithLowestEntropy s"] pc by simp
  show ?thesis
    using g pw pr
    by (simp add: collapseNext_def Let_def pk filter_not_chosen_Nil attempt_def)
qed

lemma collapseNext_empty:
  "getListofTilesWithLowestEntropy s = [] \<Longrightarrow> collapseNext s = (Inl NoValidTilesRemaining, s)"
  by (simp add: collapseNext_def)

lemma collapseNext_unselected:
  assumes g: "getListofTilesWithLowestEntropy s \<noteq> []"
    and pc: "fst (pickOne (rnd s) (getListofTilesWithLowestEntropy s)) = None"
  shows "collapseNext s = (Inl UnableToSelect, s\<lparr>rnd := snd (getRandom (rnd s))\<rparr>)"
proof -
  have pk: "pickOne (rnd s) (getListofTilesWithLowestEntropy s) = (None, snd (getRandom (rnd s)))"
    using pickOne_pair[of "rnd s" "getListofTilesWithLowestEntropy s"] pc by simp
  show ?thesis using g by (simp add: collapseNext_def Let_def pk)
qed

lemma collapseNext_Inr:
  assumes "collapseNext s = (Inr b, s')"
  obtains p cur ty r2 where
    "(p, cur) \<in> set (getListofTilesWithLowestEntropy s)"
    "fst (pickOne (rnd s) (getListofTilesWithLowestEntropy s)) = Some (p, cur)"
    "availableTiles cur \<noteq> []"
    "pickOneWeighted (snd (getRandom (rnd s))) (availableTiles cur) (weighting s) = (ty, r2)"
    "setEntropyOfSurroundingTiles (attempt s p cur ty r2) (index cur) = (None, s')"
    "b \<longleftrightarrow> getNumberOfRemainingTilesToCollapse s' = 0"
proof -
  let ?g = "getListofTilesWithLowestEntropy s"
  from assms have g: "?g \<noteq> []"
    using collapseNext_empty[of s] by auto
  from assms collapseNext_unselected[OF g] obtain p cur where
    pc: "fst (pickOne (rnd s) ?g) = Some (p, cur)"
    by (cases "fst (pickOne (rnd s) ?g)") auto
  have mem: "(p, cur) \<in> set ?g" using pc by (rule pickOne_Some_mem)
  obtain ty r2 where pw: "pickOneWeighted (snd (getRandom (rnd s))) (availableTiles cur) (weighting s) = (ty, r2)"
    by (cases "pickOneWeighted (snd (getRandom (rnd s))) (availableTiles cur) (weighting s)")
  obtain thrown s3 where pr: "setEntropyOfSurroundingTiles (attempt s p cur ty r2) (index cur) = (thrown, s3)"
    by (cases "setEntropyOfSurroundingTiles (attempt s p cur ty r2) (index cur)")
  from assms collapseNext_unfold[OF g pc pw pr]
  have "availableTiles cur \<noteq> [] \<and> thrown = None \<and> s3 = s'
        \<and> (b \<longleftrightarrow> getNumberOfRemainingTilesToCollapse s' = 0)"
    by (auto split: if_splits option.splits)
  with that[OF mem pc _ pw] pr show thesis by simp
qed

lemma finite_unresolved: "finite (unresolved s)"
  by (simp add: unresolved_def)

lemma tile_frame_unresolved:
  "tile_frame a b \<Longrightarrow> (\<exists>t. a = Some t \<and> entropy t \<noteq> 0) \<longleftrightarrow> (\<exists>t. b = Some t \<and> entropy t \<noteq> 0)"
  by (cases a; cases b) (auto simp: tile_frame_def)

lemma frame_unresolved_set:
  assumes "frame s s'"
  shows "unresolved s' = unresolved s"
proof -
  have len: "length (tiles s') = length (tiles s)" using assms by (simp add: frame_def)
  have "\<And>p. p < length (tiles s) \<Longrightarrow> tile_frame (tiles s ! p) (tiles s' ! p)"
    using assms by (simp add: frame_def)
  then have "\<And>p. p < length (tiles s) \<Longrightarrow>
      (\<exists>t. tiles s ! p = Some t \<and> entropy t \<noteq> 0) \<longleftrightarrow> (\<exists>t. tiles s' ! p = Some t \<and> entropy t \<noteq> 0)"
    by (rule tile_frame_unresolved)
  then show ?thesis unfolding unresolved_def len by blast
qed

lemma collapseNext_progress:
  assumes "collapseNext s = (Inr b, s')"
  shows "unresolved s' \<subset> unresolved s"
proof -
  from assms obtain p cur ty r2 where
    mem: "(p, cur) \<in> set (getListofTilesWithLowestEntropy s)" and
    pr: "setEntropyOfSurroundingTiles (attempt s p cur ty r2) (index cur) = (None, s')"
    by (rule collapseNext_Inr)
  let ?s2 = "attempt s p cur ty r2"
  from lowest_member[OF mem] have p: "p < length (tiles s)" "tiles s ! p = Some cur" "entropy cur \<noteq> 0"
    by auto
  have "unresolved s' = unresolved ?s2"
    using setEntropyOfSurroundingTiles_frame[OF pr] by (rule frame_unresolved_set)
  also have "\<dots> = unresolved s - {p}"
    using p by (auto simp: unresolved_def attempt_def modify_tile_def nth_list_update)
  also have "\<dots> \<subset> unresolved s"
    using p by (auto simp: unresolved_def)
  finally show ?thesis .
qed

lemma run_steps_terminates: "\<exists>r. run_steps s = Some r"
proof (induction "card (unresolved s)" arbitrary: s rule: less_induct)
  case less
  obtain res s' where c: "collapseNext s = (res, s')" by (cases "collapseNext s")
  show ?case
  proof (cases res)
    case (Inl e)
    with c show ?thesis by (subst run_steps.simps) simp
  next
    case (Inr b)
    show ?thesis
    proof (cases b)
      case True
      with c Inr show ?thesis by (subst run_steps.simps) simp
    next
      case False
      have "card (unresolved s') < card (unresolved s)"
        using collapseNext_progress[OF c[unfolded Inr]] finite_unresolved
        by (simp add: psubset_card_mono)
      from less[OF this] obtain r where "run_steps s' = Some r" by blast
      with c Inr False show ?thesis by (subst run_steps.simps) simp
    qed
  qed
qed

lemma generateLevel_terminates: "\<exists>r. generateLevel s = Some r"
proof -
  have rs: "\<And>x. \<exists>lg s3. run_steps x = Some (lg, s3)"
    using run_steps_terminates by (metis surj_pair)
  show ?thesis
  proof (cases "isDataReady s = ready")
    case False
    then show ?thesis by (simp add: generateLevel_def Let_def)
  next
    case True
    let ?s0 = "s\<lparr>bufferstate := isDataReady s\<rparr>"
    obtain e1 s1 where st: "(if startWithRandom ?s0 then randomStart ?s0 else (None, ?s0)) = (e1, s1)"
      by (cases "if startWithRandom ?s0 then randomStart ?s0 else (None, ?s0)")
    obtain e2 s2 where pr: "prepareTileDataForCollapsing s1 = (e2, s2)"
      by (cases "prepareTileDataForCollapsing s1")
    obtain lg s3 where r: "run_steps (s2\<lparr>bufferstate := collapsing\<rparr>) = Some (lg, s3)"
      using rs by blast
    show ?thesis
      unfolding generateLevel_def Let_def using True st pr r
      by (cases e1; cases e2; simp)
  qed
qed

lemma generateLevel_fulfilled_collapsed:
  "generateLevel s = Some (Inr logged, s') \<Longrightarrow> bufferstate s' = collapsed"
  by (auto simp: generateLevel_def Let_def split: prod.splits option.splits if_splits)

lemma rnd_modify_tile: "rnd (modify_tile p f s) = rnd s"
  by (simp add: modify_tile_def)

lemma collapseNext_draws:
  "rnd (snd (collapseNext s)) \<in>
     {rnd s, snd (getRandom (rnd s)), snd (getRandom (snd (getRandom (rnd s))))}"
proof (cases "getListofTilesWithLowestEntropy s = []")
  case True
  then show ?thesis by (simp add: collapseNext_empty)
next
  case False
  let ?g = "getListofTilesWithLowestEntropy s"
  show ?thesis
  proof (cases "fst (pickOne (rnd s) ?g)")
    case None
    with False show ?thesis by (simp add: collapseNext_unselected)
  next
    case (Some pc)
    obtain p cur where pc: "fst (pickOne (rnd s) ?g) = Some (p, cur)" using Some by (cases pc) simp
    obtain ty r2 where pw: "pickOneWeighted (snd (getRandom (rnd s))) (availableTiles cur) (weighting s) = (ty, r2)"
      by (cases "pickOneWeighted (snd (getRandom (rnd s))) (availableTiles cur) (weighting s)")
    obtain thrown s3 where pr: "setEntropyOfSurroundingTiles (attempt s p cur ty r2) (index cur) = (thrown, s3)"
      by (cases "setEntropyOfSurroundingTiles (attempt s p cur ty r2) (index cur)")
    have r2: "r2 = snd (getRandom (snd (getRandom (rnd s))))"
      using pw snd_pickOneWeighted[of "snd (getRandom (rnd s))" "availableTiles cur" "weighting s"]
      by simp
    have "rnd s3 = r2"
      using setEntropyOfSurroundingTiles_frame[OF pr] by (simp add: frame_def attempt_def rnd_modify_tile)
    with r2 show ?thesis
      unfolding collapseNext_unfold[OF False pc pw pr] by (simp split: option.splits)
  qed
qed

section \<open>The grid and its neighbourhoods\<close>

lemma js_rem_nonneg: "0 \<le> i \<Longrightarrow> 0 < w \<Longrightarrow> js_rem i w = Some (i mod w)"
  by (cases "i = 0") (auto simp: js_rem_def sgn_if)

lemma mod_succ_zero:
  assumes "0 < (w::int)"
  shows "(i + 1) mod w = 0 \<longleftrightarrow> i mod w = w - 1"
proof -
  have r: "0 \<le> i mod w" "i mod w < w" using assms by simp_all
  have e: "(i + 1) mod w = (i mod w + 1) mod w" by (simp add: mod_add_left_eq)
  show ?thesis
  proof (cases "i mod w + 1 < w")
    case True
    then have "(i mod w + 1) mod w = i mod w + 1" using r by simp
    with e True r show ?thesis by simp
  next
    case False
    with r have "i mod w + 1 = w" by simp
    with e show ?thesis by (metis add_diff_cancel_right' mod_self)
  qed
qed

lemma mod_pred:
  assumes "0 < (w::int)"
  shows "(i - 1) mod w = w - 1 \<longleftrightarrow> i mod w = 0"
  using mod_succ_zero[OF assms, of "i - 1"] by simp

lemma right_in_range:
  assumes "0 \<le> (i::int)" "0 < w" "i < w * h" "i mod w \<noteq> w - 1"
  shows "i + 1 < w * h"
proof -
  let ?q = "i div w" and ?r = "i mod w"
  have i: "i = w * ?q + ?r" by simp
  have "?r < w" using assms(2) by simp
  then have r2: "?r < w - 1" using assms(4) by arith
  have r1: "0 \<le> ?r" using assms(2) by simp
  note r = r1 r2
  have "?q < h"
  proof (rule ccontr)
    assume "\<not> ?q < h"
    then have "w * h \<le> w * ?q" using assms(2) by (simp add: mult_left_mono)
    with i r(1) assms(3) show False by linarith
  qed
  then have "w * (?q + 1) \<le> w * h" using assms(2) by (simp add: mult_left_mono)
  then have "w * ?q + w \<le> w * h" by (simp add: distrib_left)
  with i r show ?thesis by linarith
qed

lemma opposite_opposite: "opposite (opposite d) = d"
  by (cases d) (simp_all add: opposite_def)

lemma grid_tile_at:
  "grid s \<Longrightarrow> 0 \<le> i \<Longrightarrow> i < int (length (tiles s))
   \<Longrightarrow> \<exists>t. tile_at (tiles s) i = Some t \<and> index t = i"
proof -
  assume g: "grid s" and i: "0 \<le> i" "i < int (length (tiles s))"
  then have "nat i < length (tiles s)" by simp
  with g obtain t where "tiles s ! nat i = Some t" "index t = int (nat i)"
    unfolding grid_def by blast
  with i show ?thesis by (simp add: tile_at_def)
qed

lemma tile_at_range: "tile_at ts i = Some t \<Longrightarrow> 0 \<le> i \<and> i < int (length ts)"
  by (auto simp: tile_at_def split: if_splits)

lemma neighbor_symmetric:
  assumes g: "grid s" and i: "0 \<le> i" "i < int (length (tiles s))"
    and n: "neighbor s d i = j" "j \<noteq> - 1"
  shows "0 \<le> j \<and> j < int (length (tiles s)) \<and> j \<noteq> i \<and> neighbor s (opposite d) j = i"
proof -
  let ?w = "width s"
  have w: "0 < ?w" and len: "int (length (tiles s)) = ?w * height s"
    using g i by (auto simp: grid_def)
  show ?thesis
  proof (cases d)
    case Up
    with n have j: "j = i - ?w" "\<not> i - ?w < 0"
      by (auto simp: neighbor_def upTileIndex_def split: if_splits)
    with i w Up show ?thesis
      by (auto simp: neighbor_def opposite_def downTileIndex_def)
  next
    case Down
    with n have j: "j = i + ?w" "\<not> i + ?w > int (length (tiles s)) - 1"
      by (auto simp: neighbor_def downTileIndex_def split: if_splits)
    with i w Down show ?thesis
      by (auto simp: neighbor_def opposite_def upTileIndex_def)
  next
    case Left
    with n i w have j: "j = i - 1" "i mod ?w \<noteq> 0"
      by (auto simp: neighbor_def leftTileIndex_def js_rem_nonneg split: if_splits)
    from j(2) i(1) have i1: "1 \<le> i" by (cases "i = 0") auto
    have "(i - 1) mod ?w \<noteq> ?w - 1" using mod_pred[OF w, of i] j(2) by simp
    with j i i1 w Left show ?thesis
      by (auto simp: neighbor_def opposite_def rightTileIndex_def js_rem_nonneg)
  next
    case Right
    with n i w have j: "j = i + 1" "i mod ?w \<noteq> ?w - 1"
      by (auto simp: neighbor_def rightTileIndex_def js_rem_nonneg split: if_splits)
    have r: "i + 1 < int (length (tiles s))"
      unfolding len using right_in_range[OF i(1) w _ j(2)] i(2) len by simp
    have "(i + 1) mod ?w \<noteq> 0" using mod_succ_zero[OF w, of i] j(2) by simp
    with j i r w Right show ?thesis
      by (auto simp: neighbor_def opposite_def leftTileIndex_def js_rem_nonneg)
  qed
qed

lemma frame_neighbor: "frame s s' \<Longrightarrow> neighbor s' d i = neighbor s d i"
  by (cases d)
     (simp_all add: frame_def neighbor_def upTileIndex_def downTileIndex_def
        leftTileIndex_def rightTileIndex_def)

lemma frame_grid: "frame s s' \<Longrightarrow> grid s \<Longrightarrow> grid s'"
proof -
  assume f: "frame s s'" and g: "grid s"
  have "\<And>p. p < length (tiles s) \<Longrightarrow> \<exists>t. tiles s' ! p = Some t \<and> index t = int p"
  proof -
    fix p assume p: "p < length (tiles s)"
    with g obtain t where t: "tiles s ! p = Some t" "index t = int p" by (auto simp: grid_def)
    from f p have "tile_frame (tiles s ! p) (tiles s' ! p)" by (simp add: frame_def)
    with t show "\<exists>t. tiles s' ! p = Some t \<and> index t = int p"
      by (auto simp: tile_frame_def split: option.splits)
  qed
  with f g show ?thesis by (auto simp: grid_def frame_def)
qed

text \<open>The array \<open>testArray\<close> through the four directions.\<close>

lemma testArray_dirs:
  "testArray s i =
     (case neighborAvailableTiles s (neighbor s Up i) (rule_list (opposite Up)) of
        Inl e \<Rightarrow> Inl e
      | Inr u \<Rightarrow>
     (case neighborAvailableTiles s (neighbor s Down i) (rule_list (opposite Down)) of
        Inl e \<Rightarrow> Inl e
      | Inr d \<Rightarrow>
     (case neighborAvailableTiles s (neighbor s Left i) (rule_list (opposite Left)) of
        Inl e \<Rightarrow> Inl e
      | Inr l \<Rightarrow>
     (case neighborAvailableTiles s (neighbor s Right i) (rule_list (opposite Right)) of
        Inl e \<Rightarrow> Inl e
      | Inr r \<Rightarrow> Inr (filter (\<lambda>l. l \<noteq> []) [u, d, l, r])))))"
  unfolding testArray_def neighbor_def opposite_def rule_list_def direction.case length_0_conv ..

lemma testArray_Inr:
  assumes "testArray s i = Inr ls"
  shows "\<exists>L. neighborAvailableTiles s (neighbor s d i) (rule_list (opposite d)) = Inr L
             \<and> (L \<noteq> [] \<longrightarrow> L \<in> set ls)"
  using assms unfolding testArray_dirs
  by (cases d) (auto split: sum.splits)

lemma testArray_Inr_Nil:
  assumes "testArray s i = Inr []"
  shows "neighborAvailableTiles s (neighbor s d i) (rule_list (opposite d)) = Inr []"
  using testArray_Inr[OF assms, of d] by auto

lemma testArray_cong:
  assumes "\<And>d. neighborAvailableTiles s' (neighbor s' d i) (rule_list (opposite d))
               = neighborAvailableTiles s (neighbor s d i) (rule_list (opposite d))"
  shows "testArray s' i = testArray s i"
  unfolding testArray_dirs assms ..

lemma testArray_all_Nil:
  assumes "\<And>d. neighborAvailableTiles s (neighbor s d i) (rule_list (opposite d)) = Inr []"
  shows "testArray s i = Inr []"
  unfolding testArray_dirs assms by simp

lemma frame_neighborAvailableTiles:
  assumes "frame s s'"
  shows "neighborAvailableTiles s' n sel = neighborAvailableTiles s n sel"
proof -
  have r: "rules s' = rules s" using assms by (simp add: frame_def)
  from frame_tile_at[OF assms, of n] show ?thesis
    unfolding neighborAvailableTiles_def r
    by (cases "tile_at (tiles s) n"; cases "tile_at (tiles s') n") (auto simp: tile_frame_def)
qed

lemma frame_testArray: "frame s s' \<Longrightarrow> testArray s' i = testArray s i"
  by (rule testArray_cong) (simp add: frame_neighbor frame_neighborAvailableTiles)

section \<open>Candidate lists and entropies in step with the neighbours\<close>

lemma sync_mono_refl: "sync_mono s s"
  by (simp add: sync_mono_def frame_refl)

lemma sync_mono_trans: "sync_mono s s' \<Longrightarrow> sync_mono s' s'' \<Longrightarrow> sync_mono s s''"
  unfolding sync_mono_def using frame_trans by blast

lemma sync_mono_frame: "sync_mono s s' \<Longrightarrow> frame s s'"
  by (simp add: sync_mono_def)

lemma tile_frame_resolved:
  "tile_frame (Some t) (Some t') \<Longrightarrow> entropy t' = 0 \<longleftrightarrow> entropy t = 0"
  by (simp add: tile_frame_def)

lemma frame_computed:
  assumes "frame s s'"
  shows "computed s' n e = computed s n e"
proof -
  note tf = frame_tile_at[OF assms, of n]
  show ?thesis
  proof (cases "tile_at (tiles s) n")
    case None
    with tf show ?thesis by (simp add: computed_def tile_frame_def)
  next
    case (Some t)
    with tf obtain t' where t': "tile_at (tiles s') n = Some t'"
      by (cases "tile_at (tiles s') n") (auto simp: tile_frame_def)
    with tf Some have "entropy t' = 0 \<longleftrightarrow> entropy t = 0" by (simp add: tile_frame_def)
    with Some t' show ?thesis by (simp add: computed_def frame_testArray[OF assms])
  qed
qed

lemma tile_at_modify_tile:
  "tile_at (tiles (modify_tile p f s)) j =
     (if j = int p then map_option f (tile_at (tiles s) j) else tile_at (tiles s) j)"
  by (auto simp: tile_at_def modify_tile_def nth_list_update)

lemma resolved_ok:
  "tile_at (tiles s) (int p) = Some t \<Longrightarrow> entropy t = 0
   \<Longrightarrow> avail_ok s p \<and> entropy_ok s p \<and> empty_ok s p"
  by (simp add: avail_ok_def entropy_ok_def empty_ok_def)

lemma absent_ok:
  "tile_at (tiles s) (int p) = None \<Longrightarrow> avail_ok s p \<and> entropy_ok s p \<and> empty_ok s p"
  by (simp add: avail_ok_def entropy_ok_def empty_ok_def)

text \<open>Storing a candidate list in an unresolved tile.\<close>

lemma store_avail_sync:
  assumes t: "tile_at (tiles s) n = Some t" "entropy t \<noteq> 0"
    and ls: "testArray s n = Inr ls" "ls \<noteq> []" "consolodate ls \<noteq> []"
  defines "s' \<equiv> modify_tile (nat n) (\<lambda>t. t\<lparr>availableTiles := consolodate ls\<rparr>) s"
  shows "sync_mono s s' \<and> avail_ok s' (nat n)"
proof -
  have n: "int (nat n) = n" using t(1) by (rule tile_at_nat)
  have fr: "frame s s'" unfolding s'_def
    using frame_modify_avail[of s "nat n" t] t n by simp
  note ta = frame_testArray[OF fr]
  have at: "\<And>j. tile_at (tiles s') j =
      (if j = n then Some (t\<lparr>availableTiles := consolodate ls\<rparr>) else tile_at (tiles s) j)"
    unfolding s'_def using t(1) n by (simp add: tile_at_modify_tile)
  have a: "\<And>p. avail_ok s p \<Longrightarrow> avail_ok s' p"
    unfolding avail_ok_def at ta using ls by (auto split: option.splits)
  have e: "\<And>p. entropy_ok s p \<Longrightarrow> entropy_ok s' p"
    unfolding entropy_ok_def at ta using t ls by (auto split: option.splits)
  have m: "\<And>p. empty_ok s p \<Longrightarrow> empty_ok s' p"
    unfolding empty_ok_def at ta using t ls by (auto split: option.splits)
  have "avail_ok s' (nat n)"
    unfolding avail_ok_def at ta n using ls by simp
  with fr a e m show ?thesis by (simp add: sync_mono_def)
qed

lemma getEntropy_sync:
  assumes "getEntropy s n = Inr (e, s')"
  shows "sync_mono s s' \<and> computed s n e \<and> (empty_ok s (nat n) \<longrightarrow> avail_ok s' (nat n))"
proof -
  from assms obtain t where t: "tile_at (tiles s) n = Some t"
    by (auto simp: getEntropy_def split: option.splits)
  have n: "int (nat n) = n" using t by (rule tile_at_nat)
  show ?thesis
  proof (cases "entropy t = 0")
    case True
    with assms t have "s' = s" "e = 0" by (simp_all add: getEntropy_def)
    with t True n resolved_ok[of s "nat n" t] show ?thesis
      by (simp add: sync_mono_refl computed_def)
  next
    case False
    with assms t obtain ls where ls: "testArray s n = Inr ls"
      by (auto simp: getEntropy_def split: sum.splits)
    show ?thesis
    proof (cases "ls = []")
      case True
      with assms t False ls have "s' = s" "e = \<infinity>" by (simp_all add: getEntropy_def)
      with t False ls True n show ?thesis
        by (simp add: sync_mono_refl computed_def empty_ok_def avail_ok_def)
    next
      case ne: False
      with assms t False ls have c: "consolodate ls \<noteq> []"
        and e: "e = enat (length (consolodate ls))"
        and s': "s' = modify_tile (nat n) (\<lambda>t. t\<lparr>availableTiles := consolodate ls\<rparr>) s"
        by (auto simp: getEntropy_def Let_def split: if_splits)
      have "computed s n e"
        using t False ls ne c e by (simp add: computed_def zero_enat_def)
      with store_avail_sync[OF t False ls ne c] s' show ?thesis by simp
    qed
  qed
qed

lemma set_entropy_sync:
  assumes c: "computed s n e" and e: "e \<noteq> 0"
  defines "s' \<equiv> set_entropy n e s"
  shows "sync_mono s s' \<and> entropy_ok s' (nat n)"
proof -
  from c obtain t where t: "tile_at (tiles s) n = Some t"
    by (auto simp: computed_def split: option.splits)
  from c t e have u: "entropy t \<noteq> 0" by (auto simp: computed_def split: if_splits)
  from c t u obtain ls where ls: "testArray s n = Inr ls"
    and ev: "e = (if ls = [] then \<infinity> else enat (length (consolodate ls)))"
    by (auto simp: computed_def split: sum.splits)
  have n: "int (nat n) = n" using t by (rule tile_at_nat)
  have fr: "frame s s'" unfolding s'_def using t u e by (rule frame_set_entropy)
  note ta = frame_testArray[OF fr]
  have at: "\<And>j. tile_at (tiles s') j =
      (if j = n then Some (t\<lparr>entropy := e\<rparr>) else tile_at (tiles s) j)"
    unfolding s'_def set_entropy_def using t n by (simp add: tile_at_modify_tile)
  have a: "\<And>p. avail_ok s p \<Longrightarrow> avail_ok s' p"
    unfolding avail_ok_def at ta using t u e ls by (auto split: option.splits)
  have m: "\<And>p. empty_ok s p \<Longrightarrow> empty_ok s' p"
    unfolding empty_ok_def at ta using t u e ls by (auto split: option.splits)
  have en: "\<And>p. entropy_ok s p \<Longrightarrow> entropy_ok s' p"
    unfolding entropy_ok_def at ta using t u e ls ev by (auto split: option.splits)
  have "entropy_ok s' (nat n)"
    unfolding entropy_ok_def at ta n using ls ev by simp
  with fr a en m show ?thesis by (simp add: sync_mono_def)
qed

lemma computed_resolved:
  "computed s n 0 \<Longrightarrow> entropy_ok s (nat n)"
  by (auto simp: computed_def entropy_ok_def dest: tile_at_nat split: option.splits if_splits)

lemma storeEntropy_sync:
  assumes "n \<noteq> - 1 \<longrightarrow> (\<exists>e. eo = Some e \<and> computed s n e)"
  shows "sync_mono s (storeEntropy n eo s) \<and> (n \<noteq> - 1 \<longrightarrow> entropy_ok (storeEntropy n eo s) (nat n))"
proof (cases "n = - 1")
  case True
  then show ?thesis by (simp add: storeEntropy_def sync_mono_refl)
next
  case False
  with assms obtain e where e: "eo = Some e" "computed s n e" by blast
  show ?thesis
  proof (cases "e = 0")
    case True
    with e False computed_resolved[of s n] show ?thesis
      by (simp add: storeEntropy_def truthy_def sync_mono_refl)
  next
    case ne: False
    with e False set_entropy_sync[OF e(2) ne] show ?thesis
      by (simp add: storeEntropy_def truthy_def)
  qed
qed

lemma storeLeftEntropy_storeEntropy:
  assumes "n \<noteq> - 1 \<longrightarrow> (\<exists>e. eo = Some e \<and> computed s n e)"
  shows "storeLeftEntropy n eo s = storeEntropy n eo s"
proof (cases "n = - 1")
  case True
  then show ?thesis by (simp add: storeLeftEntropy_def storeEntropy_def)
next
  case False
  with assms obtain e where e: "eo = Some e" "computed s n e" by blast
  show ?thesis
  proof (cases "e = 0")
    case True
    with e show ?thesis by (simp add: storeLeftEntropy_def storeEntropy_def truthy_def)
  next
    case ne: False
    from e(2) obtain t where t: "tile_at (tiles s) n = Some t"
      by (cases "tile_at (tiles s) n") (simp_all add: computed_def)
    from e(2) t ne have "entropy t \<noteq> 0" by (cases "entropy t = 0") (simp_all add: computed_def)
    with t e ne show ?thesis by (simp add: storeLeftEntropy_def storeEntropy_def truthy_def)
  qed
qed

lemma neighborEntropy_sync:
  assumes "neighborEntropy s n d = Inr (eo, s')"
  shows "sync_mono s s'
     \<and> (n \<noteq> - 1 \<longrightarrow> (\<exists>e. eo = Some e \<and> computed s n e)
                     \<and> (empty_ok s (nat n) \<longrightarrow> avail_ok s' (nat n)))"
proof (cases "n = - 1")
  case True
  with assms show ?thesis by (simp add: neighborEntropy_def sync_mono_refl)
next
  case False
  with assms obtain e where "getEntropy s n = Inr (e, s')" "eo = Some e"
    by (auto simp: neighborEntropy_def split: sum.splits)
  with getEntropy_sync[of s n e s'] False show ?thesis by simp
qed

lemma stage_refl: "stage s s {} {}"
  by (simp add: stage_def sync_mono_refl)

lemma stage_neighborEntropy:
  assumes st: "stage s0 a A E" and ne: "neighborEntropy a n d = Inr (eo, b)"
  shows "stage s0 b (insert n A) E \<and> (n \<noteq> - 1 \<longrightarrow> (\<exists>e. eo = Some e \<and> computed s0 n e))"
proof -
  from st have m0: "sync_mono s0 a" by (simp add: stage_def)
  from neighborEntropy_sync[OF ne] have m1: "sync_mono a b"
    and c: "n \<noteq> - 1 \<longrightarrow> (\<exists>e. eo = Some e \<and> computed a n e)"
    and av: "n \<noteq> - 1 \<longrightarrow> empty_ok a (nat n) \<longrightarrow> avail_ok b (nat n)"
    by auto
  have m: "sync_mono s0 b" using m0 m1 by (rule sync_mono_trans)
  have c0: "n \<noteq> - 1 \<longrightarrow> (\<exists>e. eo = Some e \<and> computed s0 n e)"
    using c frame_computed[OF sync_mono_frame[OF m0]] by simp
  have "n \<noteq> - 1 \<longrightarrow> empty_ok s0 (nat n) \<longrightarrow> avail_ok b (nat n)"
    using av m0 by (simp add: sync_mono_def)
  moreover have "\<forall>k \<in> A. k \<noteq> - 1 \<longrightarrow> empty_ok s0 (nat k) \<longrightarrow> avail_ok b (nat k)"
    using st m1 by (simp add: stage_def sync_mono_def)
  moreover have "\<forall>k \<in> E. k \<noteq> - 1 \<longrightarrow> entropy_ok b (nat k)"
    using st m1 by (simp add: stage_def sync_mono_def)
  ultimately show ?thesis using m c0 by (simp add: stage_def)
qed

lemma stage_storeEntropy:
  assumes st: "stage s0 a A E" and c: "n \<noteq> - 1 \<longrightarrow> (\<exists>e. eo = Some e \<and> computed s0 n e)"
  shows "stage s0 (storeEntropy n eo a) A (insert n E)"
proof -
  from st have m0: "sync_mono s0 a" by (simp add: stage_def)
  have ca: "n \<noteq> - 1 \<longrightarrow> (\<exists>e. eo = Some e \<and> computed a n e)"
    using c frame_computed[OF sync_mono_frame[OF m0]] by simp
  from storeEntropy_sync[OF ca] have m1: "sync_mono a (storeEntropy n eo a)"
    and en: "n \<noteq> - 1 \<longrightarrow> entropy_ok (storeEntropy n eo a) (nat n)" by auto
  have m: "sync_mono s0 (storeEntropy n eo a)" using m0 m1 by (rule sync_mono_trans)
  have "\<forall>k \<in> A. k \<noteq> - 1 \<longrightarrow> empty_ok s0 (nat k) \<longrightarrow> avail_ok (storeEntropy n eo a) (nat k)"
    using st m1 by (simp add: stage_def sync_mono_def)
  moreover have "\<forall>k \<in> E. k \<noteq> - 1 \<longrightarrow> entropy_ok (storeEntropy n eo a) (nat k)"
    using st m1 by (simp add: stage_def sync_mono_def)
  ultimately show ?thesis using m en by (simp add: stage_def)
qed

lemma stage_storeLeftEntropy:
  assumes st: "stage s0 a A E" and c: "n \<noteq> - 1 \<longrightarrow> (\<exists>e. eo = Some e \<and> computed s0 n e)"
  shows "stage s0 (storeLeftEntropy n eo a) A (insert n E)"
proof -
  from st have m0: "sync_mono s0 a" by (simp add: stage_def)
  have ca: "n \<noteq> - 1 \<longrightarrow> (\<exists>e. eo = Some e \<and> computed a n e)"
    using c frame_computed[OF sync_mono_frame[OF m0]] by simp
  show ?thesis
    unfolding storeLeftEntropy_storeEntropy[OF ca] using st c by (rule stage_storeEntropy)
qed

lemma setEntropyOfSurroundingTiles_None:
  assumes "setEntropyOfSurroundingTiles s i = (None, s')"
  obtains e1 s1 e2 s2 e3 s3 e4 s4 where
    "neighborEntropy s (upTileIndex s i) Up = Inr (e1, s1)"
    "neighborEntropy s1 (downTileIndex s i) Down = Inr (e2, s2)"
    "neighborEntropy s2 (leftTileIndex s i) Left = Inr (e3, s3)"
    "neighborEntropy s3 (rightTileIndex s i) Right = Inr (e4, s4)"
    "s' = storeEntropy (downTileIndex s i) e2
            (storeEntropy (upTileIndex s i) e1
               (storeEntropy (rightTileIndex s i) e4
                  (storeLeftEntropy (leftTileIndex s i) e3 s4)))"
  using assms unfolding setEntropyOfSurroundingTiles_def Let_def
  by (auto split: sum.splits prod.splits)

lemma stage_mono: "stage s0 a A E \<Longrightarrow> sync_mono s0 a"
  by (simp add: stage_def)

lemma stage_avail:
  "stage s0 a A E \<Longrightarrow> n \<in> A \<Longrightarrow> n \<noteq> - 1 \<Longrightarrow> empty_ok s0 (nat n) \<Longrightarrow> avail_ok a (nat n)"
  unfolding stage_def by blast

lemma stage_entropy:
  "stage s0 a A E \<Longrightarrow> n \<in> E \<Longrightarrow> n \<noteq> - 1 \<Longrightarrow> entropy_ok a (nat n)"
  unfolding stage_def by blast

lemma propagation_sync:
  assumes "setEntropyOfSurroundingTiles s i = (None, s')"
  shows "sync_mono s s'
     \<and> (\<forall>d. neighbor s d i \<noteq> - 1 \<longrightarrow>
            entropy_ok s' (nat (neighbor s d i))
            \<and> (empty_ok s (nat (neighbor s d i)) \<longrightarrow> avail_ok s' (nat (neighbor s d i))))"
proof -
  let ?u = "upTileIndex s i" and ?d = "downTileIndex s i"
  let ?l = "leftTileIndex s i" and ?r = "rightTileIndex s i"
  from assms obtain e1 s1 e2 s2 e3 s3 e4 s4 where
    n1: "neighborEntropy s ?u Up = Inr (e1, s1)" and
    n2: "neighborEntropy s1 ?d Down = Inr (e2, s2)" and
    n3: "neighborEntropy s2 ?l Left = Inr (e3, s3)" and
    n4: "neighborEntropy s3 ?r Right = Inr (e4, s4)" and
    s': "s' = storeEntropy ?d e2 (storeEntropy ?u e1 (storeEntropy ?r e4 (storeLeftEntropy ?l e3 s4)))"
    by (rule setEntropyOfSurroundingTiles_None)
  note a1 = stage_neighborEntropy[OF stage_refl n1]
  note a2 = stage_neighborEntropy[OF conjunct1[OF a1] n2]
  note a3 = stage_neighborEntropy[OF conjunct1[OF a2] n3]
  note a4 = stage_neighborEntropy[OF conjunct1[OF a3] n4]
  note b1 = stage_storeLeftEntropy[OF conjunct1[OF a4] conjunct2[OF a3]]
  note b2 = stage_storeEntropy[OF b1 conjunct2[OF a4]]
  note b3 = stage_storeEntropy[OF b2 conjunct2[OF a1]]
  note b4 = stage_storeEntropy[OF b3 conjunct2[OF a2], folded s']
  have nb: "\<And>d. neighbor s d i \<in> {?u, ?d, ?l, ?r}"
    by (case_tac d) (simp_all add: neighbor_def)
  have "\<And>d. neighbor s d i \<noteq> - 1 \<Longrightarrow> entropy_ok s' (nat (neighbor s d i))"
    by (rule stage_entropy[OF b4]) (use nb in auto)
  moreover have "\<And>d. neighbor s d i \<noteq> - 1 \<Longrightarrow> empty_ok s (nat (neighbor s d i))
      \<Longrightarrow> avail_ok s' (nat (neighbor s d i))"
    by (rule stage_avail[OF b4]) (use nb in auto)
  ultimately show ?thesis using stage_mono[OF b4] by blast
qed

section \<open>Preparation, the weighted pick and the remaining count\<close>

lemma stage_insert_ok:
  assumes "stage s0 a A E" "avail_ok a (nat n)" "entropy_ok a (nat n)"
  shows "stage s0 a (insert n A) (insert n E)"
  using assms unfolding stage_def by blast

lemma stage_weaken:
  assumes "stage s0 a A E" "A' \<subseteq> A" "E' \<subseteq> E"
  shows "stage s0 a A' E'"
  using assms unfolding stage_def by blast

lemma frame_length: "frame s s' \<Longrightarrow> length (tiles s') = length (tiles s)"
  by (simp add: frame_def)

lemma stage_length: "stage s0 a A E \<Longrightarrow> length (tiles a) = length (tiles s0)"
  by (simp add: stage_def sync_mono_def frame_def)

lemma prepare_tiles_sync:
  assumes "stage s0 a A E" "prepare_tiles ps a = (None, b)" "\<forall>p \<in> set ps. p < length (tiles a)"
  shows "stage s0 b (A \<union> int ` set ps) (E \<union> int ` set ps)"
  using assms
proof (induction ps arbitrary: a A E)
  case Nil
  then show ?case by simp
next
  case (Cons p ps)
  from Cons.prems(3) have p: "p < length (tiles a)" by simp
  then have ta: "tile_at (tiles a) (int p) = tiles a ! p" by (simp add: tile_at_def)
  have goal: "\<And>a'. stage s0 a' (insert (int p) A) (insert (int p) E)
      \<Longrightarrow> prepare_tiles ps a' = (None, b) \<Longrightarrow> length (tiles a') = length (tiles a) \<Longrightarrow> ?case"
  proof -
    fix a' assume st: "stage s0 a' (insert (int p) A) (insert (int p) E)"
      and pr: "prepare_tiles ps a' = (None, b)" and len: "length (tiles a') = length (tiles a)"
    have "\<forall>q \<in> set ps. q < length (tiles a')" using Cons.prems(3) len by simp
    from Cons.IH[OF st pr this] show ?case by simp
  qed
  show ?case
  proof (cases "tiles a ! p")
    case None
    with ta have "avail_ok a (nat (int p))" "entropy_ok a (nat (int p))"
      using absent_ok[of a p] by simp_all
    from stage_insert_ok[OF Cons.prems(1) this] Cons.prems(2) None show ?thesis
      by (intro goal[of a]) simp_all
  next
    case (Some tile)
    show ?thesis
    proof (cases "entropy tile = 0")
      case True
      with ta Some have "avail_ok a (nat (int p))" "entropy_ok a (nat (int p))"
        using resolved_ok[of a p tile] by simp_all
      from stage_insert_ok[OF Cons.prems(1) this] Cons.prems(2) Some True show ?thesis
        by (intro goal[of a]) simp_all
    next
      case False
      with Cons.prems(2) Some obtain e a' where ge: "getEntropy a (int p) = Inr (e, a')"
        and pr: "prepare_tiles ps (set_entropy (int p) e a') = (None, b)"
        by (auto split: sum.splits)
      have ne: "neighborEntropy a (int p) Up = Inr (Some e, a')"
        using ge by (simp add: neighborEntropy_def)
      note s1 = stage_neighborEntropy[OF Cons.prems(1) ne]
      from s1 have c: "computed s0 (int p) e" by simp
      have fr: "frame s0 a" using Cons.prems(1) by (simp add: stage_def sync_mono_def)
      from c have "computed a (int p) e" using frame_computed[OF fr] by simp
      with ta Some False have e0: "e \<noteq> 0" by (simp add: computed_def)
      have c': "int p \<noteq> - 1 \<longrightarrow> (\<exists>x. Some e = Some x \<and> computed s0 (int p) x)"
        using c by simp
      have se: "storeEntropy (int p) (Some e) a' = set_entropy (int p) e a'"
        using e0 by (simp add: storeEntropy_def truthy_def)
      from stage_storeEntropy[OF conjunct1[OF s1] c'] have
        st: "stage s0 (set_entropy (int p) e a') (insert (int p) A) (insert (int p) E)"
        unfolding se .
      have "length (tiles (set_entropy (int p) e a')) = length (tiles a)"
        using stage_length[OF st] stage_length[OF Cons.prems(1)] by simp
      from goal[OF st pr this] show ?thesis .
    qed
  qed
qed

lemma prepare_sync:
  assumes "prepareTileDataForCollapsing s = (None, s')" and "\<forall>p. empty_ok s p"
  shows "frame s s' \<and> in_step s'"
proof -
  let ?ps = "[0..<length (tiles s)]"
  from assms(1) have pr: "prepare_tiles ?ps s = (None, s')"
    by (simp add: prepareTileDataForCollapsing_def)
  have "stage s s' ({} \<union> int ` set ?ps) ({} \<union> int ` set ?ps)"
    by (rule prepare_tiles_sync[OF stage_refl pr]) simp
  then have st: "stage s s' (int ` set ?ps) (int ` set ?ps)" by simp
  have fr: "frame s s'" using st by (simp add: stage_def sync_mono_def)
  have "\<And>p. avail_ok s' p \<and> entropy_ok s' p"
  proof -
    fix p
    show "avail_ok s' p \<and> entropy_ok s' p"
    proof (cases "p < length (tiles s)")
      case True
      then have m: "int p \<in> int ` set ?ps" by simp
      from stage_avail[OF st m] stage_entropy[OF st m] assms(2) show ?thesis by simp
    next
      case False
      then have "tile_at (tiles s') (int p) = None"
        using frame_length[OF fr] by (simp add: tile_at_def)
      then show ?thesis using absent_ok by simp
    qed
  qed
  with fr show ?thesis by (simp add: in_step_def)
qed

text \<open>The weighted pick under usable weights.\<close>

lemma expand_weighted_usable:
  "weight_usable w x \<Longrightarrow> expand_weighted w x \<noteq> [] \<and> set (expand_weighted w x) \<subseteq> {x}"
  by (cases "get_weight w x") (auto simp: weight_usable_def expand_weighted_def)

lemma pickOneWeighted_member:
  assumes sd: "natural_seed r" and us: "list_all (weight_usable w) xs" and ne: "xs \<noteq> []"
    and len: "length (concat (map (expand_weighted w) xs)) < 2 ^ 32"
  shows "\<exists>t. fst (pickOneWeighted r xs w) = Some t \<and> t \<in> set xs"
proof -
  let ?n = "concat (map (expand_weighted w) xs)"
  from ne obtain x where x: "x \<in> set xs" by (cases xs) auto
  with us have "weight_usable w x" by (simp add: list_all_iff)
  then have "expand_weighted w x \<noteq> []" using expand_weighted_usable by blast
  with x have "?n \<noteq> []" by auto
  then have n0: "0 < length ?n" by simp
  have sub: "set ?n \<subseteq> set xs"
  proof
    fix y assume "y \<in> set ?n"
    then obtain x' where x': "x' \<in> set xs" "y \<in> set (expand_weighted w x')" by auto
    from x'(1) us have "weight_usable w x'" by (simp add: list_all_iff)
    with x'(2) expand_weighted_usable[of w x'] have "y = x'" by auto
    with x'(1) show "y \<in> set xs" by simp
  qed
  from floor_pick_natural[OF sd n0 len] obtain i where
    i: "Math_floor (times_number (int (length ?n)) (fst (getRandom r))) = Some i"
       "0 \<le> i" "i < int (length ?n)" by blast
  then have "fst (pickOneWeighted r xs w) = Some (?n ! nat i)"
    by (simp add: fst_pickOneWeighted element_at_def)
  moreover have "nat i < length ?n" using i(2,3) by simp
  then have "?n ! nat i \<in> set ?n" by (rule nth_mem)
  ultimately show ?thesis using sub by blast
qed

text \<open>The candidates of a cell come from one list of one rule.\<close>

lemma length_concat_filter:
  "length (concat (map f (filter P xs))) \<le> length (concat (map f xs))"
  by (induction xs) auto

lemma listed_rule_list:
  assumes "(t, r) \<in> set rs"
  shows "set (rule_list d r) \<subseteq> set (listed_types rs)
     \<and> length (concat (map f (rule_list d r))) \<le> length (concat (map f (listed_types rs)))"
  using assms
proof (induction rs)
  case Nil
  then show ?case by simp
next
  case (Cons a rs)
  obtain t' r' where a: "a = (t', r')" by (cases a)
  have l: "listed_types (a # rs) = (up r' @ down r' @ left r' @ right r') @ listed_types rs"
    by (simp add: listed_types_def a)
  show ?case
  proof (cases "(t, r) = a")
    case True
    then have "r' = r" using a by simp
    then show ?thesis unfolding l by (cases d) (auto simp: rule_list_def)
  next
    case False
    with Cons have "set (rule_list d r) \<subseteq> set (listed_types rs)
        \<and> length (concat (map f (rule_list d r))) \<le> length (concat (map f (listed_types rs)))"
      by simp
    then show ?thesis unfolding l by auto
  qed
qed

lemma neighborAvailableTiles_listed:
  assumes "neighborAvailableTiles s n (rule_list d) = Inr l" "l \<noteq> []"
  shows "\<exists>t r. (t, r) \<in> set (rules s) \<and> l = rule_list d r"
  using assms
  by (auto simp: neighborAvailableTiles_def split: if_splits option.splits dest: map_of_SomeD)

lemma testArray_member:
  assumes "testArray s i = Inr ls" "l \<in> set ls"
  shows "\<exists>d. neighborAvailableTiles s (neighbor s d i) (rule_list (opposite d)) = Inr l \<and> l \<noteq> []"
proof -
  from assms(1) obtain u d l' r where
    n: "neighborAvailableTiles s (neighbor s Up i) (rule_list (opposite Up)) = Inr u"
       "neighborAvailableTiles s (neighbor s Down i) (rule_list (opposite Down)) = Inr d"
       "neighborAvailableTiles s (neighbor s Left i) (rule_list (opposite Left)) = Inr l'"
       "neighborAvailableTiles s (neighbor s Right i) (rule_list (opposite Right)) = Inr r"
    and ls: "ls = filter (\<lambda>l. l \<noteq> []) [u, d, l', r]"
    unfolding testArray_dirs by (auto split: sum.splits)
  from assms(2) ls have "l \<noteq> []" "l = u \<or> l = d \<or> l = l' \<or> l = r" by (auto split: if_splits)
  with n show ?thesis by metis
qed

lemma candidates_usable:
  assumes w: "weights_usable s" and ta: "testArray s i = Inr ls" and ne: "ls \<noteq> []"
  shows "list_all (weight_usable (weighting s)) (consolodate ls)
     \<and> length (concat (map (expand_weighted (weighting s)) (consolodate ls))) < 2 ^ 32"
proof -
  let ?f = "expand_weighted (weighting s)"
  from ne have "hd ls \<in> set ls" by simp
  from testArray_member[OF ta this] obtain d where
    "neighborAvailableTiles s (neighbor s d i) (rule_list (opposite d)) = Inr (hd ls)" "hd ls \<noteq> []"
    by blast
  from neighborAvailableTiles_listed[OF this] obtain t r where
    r: "(t, r) \<in> set (rules s)" "hd ls = rule_list (opposite d) r" by blast
  from listed_rule_list[OF r(1), of "opposite d" ?f] r(2)
  have sub: "set (hd ls) \<subseteq> set (listed_types (rules s))"
    and len: "length (concat (map ?f (hd ls))) \<le> length (concat (map ?f (listed_types (rules s))))"
    by simp_all
  have c: "consolodate ls = filter (\<lambda>x. list_all (\<lambda>l. x \<in> set l) ls) (hd ls)"
    by (simp add: consolodate_eq intersection_in_order_def)
  from w have "\<forall>x \<in> set (listed_types (rules s)). weight_usable (weighting s) x"
    and "length (concat (map ?f (listed_types (rules s)))) < 2 ^ 32"
    by (simp_all add: weights_usable_def list_all_iff)
  with sub len length_concat_filter[of ?f "\<lambda>x. list_all (\<lambda>l. x \<in> set l) ls" "hd ls"]
  show ?thesis unfolding c by (auto simp: list_all_iff)
qed

text \<open>The count of the tiles still to collapse.\<close>

lemma foldl_count:
  "foldl (\<lambda>count (p, element). if entropy element \<noteq> 0 then count + 1 else count) k xs
     = k + length (filter (\<lambda>(p, element). entropy element \<noteq> 0) xs)"
  by (induction xs arbitrary: k) (auto split: prod.splits)

lemma remaining_zero:
  assumes "getNumberOfRemainingTilesToCollapse s = 0" "tile_at (tiles s) i = Some t"
  shows "entropy t = 0"
proof -
  from assms(2) have "(nat i, t) \<in> set (present (tiles s))"
    by (auto simp: set_present tile_at_def split: if_splits)
  moreover from assms(1) have "filter (\<lambda>(p, element). entropy element \<noteq> 0) (present (tiles s)) = []"
    by (simp add: getNumberOfRemainingTilesToCollapse_def foldl_count)
  ultimately show ?thesis by (auto simp: filter_empty_conv)
qed

section \<open>Resolving a cell\<close>

lemma frame_pair_ok:
  assumes "frame s s'"
  shows "pair_ok s' i d = pair_ok s i d"
proof -
  have r: "rules s' = rules s" using assms by (simp add: frame_def)
  note n = frame_neighbor[OF assms]
  note ti = frame_tile_at[OF assms, of i]
  note tj = frame_tile_at[OF assms, of "neighbor s d i"]
  show ?thesis
    unfolding pair_ok_def r n using ti tj
    by (cases "tile_at (tiles s) i"; cases "tile_at (tiles s') i";
        cases "tile_at (tiles s) (neighbor s d i)"; cases "tile_at (tiles s') (neighbor s d i)")
       (simp_all add: tile_frame_def)
qed

lemma frame_pairs_ok: "frame s s' \<Longrightarrow> pairs_ok s \<Longrightarrow> pairs_ok s'"
  by (simp add: pairs_ok_def frame_pair_ok)

text \<open>The state in which propagation starts.\<close>

lemma tile_at_attempt:
  assumes "p < length (tiles s)" "tiles s ! p = Some cur"
  shows "tile_at (tiles (attempt s p cur ty r2)) j =
     (if j = int p then Some (cur\<lparr>type := ty, entropy := 0\<rparr>) else tile_at (tiles s) j)"
  using assms by (auto simp: attempt_def tile_at_def modify_tile_def nth_list_update)

lemma attempt_fields:
  "width (attempt s p cur ty r2) = width s" "height (attempt s p cur ty r2) = height s"
  "rules (attempt s p cur ty r2) = rules s" "weighting (attempt s p cur ty r2) = weighting s"
  "length (tiles (attempt s p cur ty r2)) = length (tiles s)"
  by (simp_all add: attempt_def modify_tile_def)

lemma neighbor_attempt: "neighbor (attempt s p cur ty r2) d i = neighbor s d i"
  by (cases d)
     (simp_all add: neighbor_def upTileIndex_def downTileIndex_def leftTileIndex_def
        rightTileIndex_def attempt_fields)

lemma neighborAvailableTiles_attempt:
  assumes "p < length (tiles s)" "tiles s ! p = Some cur" "m \<noteq> int p"
  shows "neighborAvailableTiles (attempt s p cur ty r2) m sel = neighborAvailableTiles s m sel"
  unfolding neighborAvailableTiles_def tile_at_attempt[OF assms(1,2)] attempt_fields
  using assms(3) by simp

lemma neighborAvailableTiles_unresolved:
  "tile_at (tiles s) m = Some t \<Longrightarrow> entropy t \<noteq> 0 \<Longrightarrow> neighborAvailableTiles s m sel = Inr []"
  by (auto simp: neighborAvailableTiles_def tile_at_def split: if_splits)

lemma neighborAvailableTiles_resolved:
  assumes "neighborAvailableTiles s m sel = Inr L" "tile_at (tiles s) m = Some n" "entropy n = 0"
  shows "\<exists>tn r. type n = Some tn \<and> map_of (rules s) tn = Some r \<and> L = sel r"
  using assms by (auto simp: neighborAvailableTiles_def tile_at_def split: if_splits option.splits)

lemma attempt_grid:
  assumes "grid s" "p < length (tiles s)" "tiles s ! p = Some cur"
  shows "grid (attempt s p cur ty r2)"
proof -
  have "\<And>q. q < length (tiles s) \<Longrightarrow>
      \<exists>t. tiles (attempt s p cur ty r2) ! q = Some t \<and> index t = int q"
  proof -
    fix q assume q: "q < length (tiles s)"
    with assms(1) obtain t where t: "tiles s ! q = Some t" "index t = int q"
      by (auto simp: grid_def)
    with q assms(3) show "\<exists>t. tiles (attempt s p cur ty r2) ! q = Some t \<and> index t = int q"
      by (cases "q = p") (auto simp: attempt_def modify_tile_def nth_list_update)
  qed
  with assms(1) show ?thesis by (simp add: grid_def attempt_fields)
qed

lemma attempt_sync:
  fixes ty r2
  assumes g: "grid s" and p: "p < length (tiles s)" "tiles s ! p = Some cur" "entropy cur \<noteq> 0"
    and step: "in_step s"
  defines "s2 \<equiv> attempt s p cur ty r2"
  shows "empty_ok s2 q"
    and "(\<forall>d. neighbor s d (int q) \<noteq> int p) \<longrightarrow> avail_ok s2 q \<and> entropy_ok s2 q"
proof -
  note at = tile_at_attempt[OF p(1,2), of ty r2, folded s2_def]
  have tp: "tile_at (tiles s) (int p) = Some cur" using p by (simp add: tile_at_def)
  have nb: "\<And>d i. neighbor s2 d i = neighbor s d i" unfolding s2_def by (rule neighbor_attempt)
  have na: "\<And>m sel. m \<noteq> int p \<Longrightarrow> neighborAvailableTiles s2 m sel = neighborAvailableTiles s m sel"
    unfolding s2_def by (rule neighborAvailableTiles_attempt[OF p(1,2)])
  have np: "\<And>sel. neighborAvailableTiles s (int p) sel = Inr []"
    using tp p(3) by (rule neighborAvailableTiles_unresolved)
  from step have aq: "avail_ok s q" and eq: "entropy_ok s q" by (simp_all add: in_step_def)
  show "empty_ok s2 q"
  proof (cases "int q = int p")
    case True
    then show ?thesis by (simp add: empty_ok_def at)
  next
    case False
    show ?thesis
    proof (cases "tile_at (tiles s) (int q)")
      case None
      with False show ?thesis by (simp add: empty_ok_def at)
    next
      case (Some t)
      have "testArray s2 (int q) = Inr [] \<Longrightarrow> availableTiles t = [] \<or> entropy t = 0"
      proof -
        assume e: "testArray s2 (int q) = Inr []"
        have "\<And>d. neighborAvailableTiles s (neighbor s d (int q)) (rule_list (opposite d)) = Inr []"
        proof -
          fix d
          from testArray_Inr_Nil[OF e, of d]
          have x: "neighborAvailableTiles s2 (neighbor s d (int q)) (rule_list (opposite d)) = Inr []"
            by (simp add: nb)
          show "neighborAvailableTiles s (neighbor s d (int q)) (rule_list (opposite d)) = Inr []"
          proof (cases "neighbor s d (int q) = int p")
            case True
            then show ?thesis by (simp add: np)
          next
            case False
            with x na show ?thesis by simp
          qed
        qed
        then have "testArray s (int q) = Inr []" by (rule testArray_all_Nil)
        with aq Some show ?thesis by (auto simp: avail_ok_def)
      qed
      with False Some show ?thesis by (auto simp: empty_ok_def at)
    qed
  qed
  show "(\<forall>d. neighbor s d (int q) \<noteq> int p) \<longrightarrow> avail_ok s2 q \<and> entropy_ok s2 q"
  proof
    assume far: "\<forall>d. neighbor s d (int q) \<noteq> int p"
    have ta: "testArray s2 (int q) = testArray s (int q)"
      by (rule testArray_cong) (simp add: nb na far)
    show "avail_ok s2 q \<and> entropy_ok s2 q"
    proof (cases "int q = int p")
      case True
      then show ?thesis by (simp add: avail_ok_def entropy_ok_def at)
    next
      case False
      with aq eq show ?thesis unfolding avail_ok_def entropy_ok_def at ta by simp
    qed
  qed
qed

lemma consolodate_member:
  assumes "t \<in> set (consolodate ls)" "L \<in> set ls"
  shows "t \<in> set L"
  using assms by (auto simp: consolodate_eq intersection_in_order_def list_all_iff)

text \<open>The picked type is allowed by each resolved neighbour of the cell.\<close>

lemma picked_type_allowed:
  assumes ta: "testArray s i = Inr ls" and t: "t \<in> set (consolodate ls)"
    and n: "tile_at (tiles s) (neighbor s d i) = Some n" "entropy n = 0"
  shows "allows (rules s) (type n) (opposite d) (Some t)"
proof -
  from testArray_Inr[OF ta, of d] obtain L where
    L: "neighborAvailableTiles s (neighbor s d i) (rule_list (opposite d)) = Inr L"
       "L \<noteq> [] \<longrightarrow> L \<in> set ls" by blast
  from neighborAvailableTiles_resolved[OF L(1) n] obtain tn r where
    r: "type n = Some tn" "map_of (rules s) tn = Some r" "L = rule_list (opposite d) r" by blast
  have "L = [] \<or> t \<in> set L" using L(2) consolodate_member[OF t] by blast
  with r show ?thesis by (simp add: allows_def)
qed

section \<open>The step loop maintains the invariant\<close>

lemma pair_okI:
  assumes "\<And>c n. tile_at (tiles s) i = Some c \<Longrightarrow> tile_at (tiles s) (neighbor s d i) = Some n
      \<Longrightarrow> entropy c = 0 \<Longrightarrow> entropy n = 0
      \<Longrightarrow> allows (rules s) (type c) d (type n) \<or> allows (rules s) (type n) (opposite d) (type c)"
  shows "pair_ok s i d"
  using assms unfolding pair_ok_def
  by (cases "tile_at (tiles s) i"; cases "tile_at (tiles s) (neighbor s d i)") simp_all

lemma pair_okD:
  assumes "pair_ok s i d" "tile_at (tiles s) i = Some c" "tile_at (tiles s) (neighbor s d i) = Some n"
    "entropy c = 0" "entropy n = 0"
  shows "allows (rules s) (type c) d (type n) \<or> allows (rules s) (type n) (opposite d) (type c)"
  using assms unfolding pair_ok_def by simp

lemma collapseNext_invariant:
  assumes inv: "invariant s" and w: "weights_usable s" and sd: "whole_seed (rnd s)"
    and c: "collapseNext s = (Inr b, s')"
  shows "invariant s' \<and> weighting s' = weighting s \<and> rules s' = rules s
     \<and> natural_seed (rnd s')"
proof -
  from c obtain p cur ty r2 where
    mem: "(p, cur) \<in> set (getListofTilesWithLowestEntropy s)" and
    pc: "fst (pickOne (rnd s) (getListofTilesWithLowestEntropy s)) = Some (p, cur)" and
    av: "availableTiles cur \<noteq> []" and
    pw: "pickOneWeighted (snd (getRandom (rnd s))) (availableTiles cur) (weighting s) = (ty, r2)" and
    pr: "setEntropyOfSurroundingTiles (attempt s p cur ty r2) (index cur) = (None, s')"
    by (rule collapseNext_Inr)
  from lowest_member[OF mem] have p: "p < length (tiles s)" "tiles s ! p = Some cur" "entropy cur \<noteq> 0"
    by auto
  from inv have g: "grid s" and step: "in_step s" and pk: "pairs_ok s"
    by (simp_all add: invariant_def)
  have tp: "tile_at (tiles s) (int p) = Some cur" using p by (simp add: tile_at_def)
  have idx: "index cur = int p" using g p by (auto simp: grid_def)
  have pr': "setEntropyOfSurroundingTiles (attempt s p cur ty r2) (int p) = (None, s')"
    using pr idx by simp
  let ?s2 = "attempt s p cur ty r2"
  \<comment> \<open>the candidates of the chosen cell\<close>
  from step have "avail_ok s p" by (simp add: in_step_def)
  with tp p(3) av obtain ls where ls: "testArray s (int p) = Inr ls" "ls \<noteq> []"
    "availableTiles cur = consolodate ls"
    by (cases "testArray s (int p)") (auto simp: avail_ok_def split: if_splits)
  from candidates_usable[OF w ls(1,2)] ls(3)
  have us: "list_all (weight_usable (weighting s)) (availableTiles cur)"
    and fit: "length (concat (map (expand_weighted (weighting s)) (availableTiles cur))) < 2 ^ 32"
    by simp_all
  have sd1: "natural_seed (snd (getRandom (rnd s)))" using sd pc by (rule pickOne_whole_natural)
  from pickOneWeighted_member[OF sd1 us av fit] pw ls(3)
  obtain t where t: "ty = Some t" "t \<in> set (consolodate ls)" by auto
  have "r2 = snd (getRandom (snd (getRandom (rnd s))))"
    using pw snd_pickOneWeighted[of "snd (getRandom (rnd s))" "availableTiles cur" "weighting s"]
    by simp
  then have sd2: "natural_seed r2" using sd1 by (simp add: natural_seed_getRandom)
  \<comment> \<open>propagation\<close>
  note ps = propagation_sync[OF pr']
  from ps have mono: "sync_mono ?s2 s'" by simp
  then have fr: "frame ?s2 s'" by (rule sync_mono_frame)
  have g2: "grid ?s2" using g p(1,2) by (rule attempt_grid)
  have g': "grid s'" using fr g2 by (rule frame_grid)
  have len': "length (tiles s') = length (tiles s)"
    using frame_length[OF fr] by (simp add: attempt_fields)
  have "\<And>q. avail_ok s' q \<and> entropy_ok s' q"
  proof -
    fix q
    show "avail_ok s' q \<and> entropy_ok s' q"
    proof (cases "\<forall>d. neighbor s d (int q) \<noteq> int p")
      case True
      with attempt_sync(2)[OF g p step, where q = q and ty = ty and ?r2.0 = r2]
      have "avail_ok ?s2 q \<and> entropy_ok ?s2 q" by simp
      with mono show ?thesis by (simp add: sync_mono_def)
    next
      case False
      then obtain d where d: "neighbor s d (int q) = int p" by blast
      show ?thesis
      proof (cases "q < length (tiles s)")
        case True
        have "neighbor s (opposite d) (int p) = int q"
          using neighbor_symmetric[OF g _ _ d] True by simp
        then have nq: "neighbor ?s2 (opposite d) (int p) = int q"
          by (simp add: neighbor_attempt)
        from ps have "neighbor ?s2 (opposite d) (int p) \<noteq> - 1 \<longrightarrow>
            entropy_ok s' (nat (neighbor ?s2 (opposite d) (int p)))
            \<and> (empty_ok ?s2 (nat (neighbor ?s2 (opposite d) (int p)))
                 \<longrightarrow> avail_ok s' (nat (neighbor ?s2 (opposite d) (int p))))"
          by blast
        then have "entropy_ok s' q" and "empty_ok ?s2 q \<longrightarrow> avail_ok s' q"
          unfolding nq by simp_all
        with attempt_sync(1)[OF g p step, where q = q and ty = ty and ?r2.0 = r2] show ?thesis by simp
      next
        case False
        then have "tile_at (tiles s') (int q) = None" using len' by (simp add: tile_at_def)
        then show ?thesis using absent_ok by simp
      qed
    qed
  qed
  then have step': "in_step s'" by (simp add: in_step_def)
  \<comment> \<open>the pairs\<close>
  have "\<And>i d. pair_ok ?s2 i d"
  proof -
    fix i d
    let ?j = "neighbor s d i"
    note at = tile_at_attempt[OF p(1,2), of ty r2]
    show "pair_ok ?s2 i d"
    proof (rule pair_okI)
      fix c n
      assume "tile_at (tiles ?s2) i = Some c" "tile_at (tiles ?s2) (neighbor ?s2 d i) = Some n"
        and res: "entropy c = 0" "entropy n = 0"
      then have c: "(if i = int p then Some (cur\<lparr>type := ty, entropy := 0\<rparr>) else tile_at (tiles s) i) = Some c"
        and n: "(if ?j = int p then Some (cur\<lparr>type := ty, entropy := 0\<rparr>) else tile_at (tiles s) ?j) = Some n"
        by (simp_all only: at neighbor_attempt)
      have "allows (rules s) (type c) d (type n) \<or> allows (rules s) (type n) (opposite d) (type c)"
      proof (cases "i = int p")
        case True
        have jp: "?j \<noteq> int p"
        proof
          assume "?j = int p"
          with neighbor_symmetric[OF g _ _ this] True p(1) show False by simp
        qed
        with n have n': "tile_at (tiles s) (neighbor s d (int p)) = Some n" using True by simp
        from True c t(1) have tc: "type c = Some t" by auto
        from picked_type_allowed[OF ls(1) t(2) n' res(2)] tc show ?thesis by simp
      next
        case False
        with c have c': "tile_at (tiles s) i = Some c" by simp
        show ?thesis
        proof (cases "?j = int p")
          case True
          from tile_at_range[OF c'] have ir: "0 \<le> i" "i < int (length (tiles s))" by simp_all
          have bk: "neighbor s (opposite d) (int p) = i"
            using neighbor_symmetric[OF g ir True] by simp
          from True n t(1) have tn: "type n = Some t" by auto
          have "tile_at (tiles s) (neighbor s (opposite d) (int p)) = Some c"
            using bk c' by simp
          from picked_type_allowed[OF ls(1) t(2) this res(1)] tn show ?thesis
            by (simp add: opposite_opposite)
        next
          case jp: False
          with n have n': "tile_at (tiles s) ?j = Some n" by simp
          from pk have "pair_ok s i d" by (simp add: pairs_ok_def)
          from pair_okD[OF this c' n' res] show ?thesis .
        qed
      qed
      then show "allows (rules ?s2) (type c) d (type n)
          \<or> allows (rules ?s2) (type n) (opposite d) (type c)"
        by (simp only: attempt_fields)
    qed
  qed
  then have "pairs_ok ?s2" by (simp add: pairs_ok_def)
  with fr have pk': "pairs_ok s'" by (rule frame_pairs_ok)
  have "weighting s' = weighting s" "rules s' = rules s"
    using fr by (simp_all add: frame_def attempt_fields)
  moreover have "rnd s' = r2"
    using fr by (simp add: frame_def attempt_def rnd_modify_tile)
  ultimately show ?thesis using g' step' pk' sd2 by (simp add: invariant_def)
qed

section \<open>A run without error\<close>

lemma run_steps_invariant:
  "invariant s \<Longrightarrow> weights_usable s \<Longrightarrow> whole_seed (rnd s) \<Longrightarrow> run_steps s = Some (None, s')
   \<Longrightarrow> invariant s' \<and> getNumberOfRemainingTilesToCollapse s' = 0 \<and> rules s' = rules s"
proof (induction "card (unresolved s)" arbitrary: s rule: less_induct)
  case less
  obtain res s1 where c: "collapseNext s = (res, s1)" by (cases "collapseNext s")
  show ?case
  proof (cases res)
    case (Inl e)
    with c less.prems(4) show ?thesis by (subst (asm) run_steps.simps) simp
  next
    case (Inr b)
    note ci = collapseNext_invariant[OF less.prems(1,2,3) c[unfolded Inr]]
    show ?thesis
    proof (cases b)
      case True
      with c Inr less.prems(4) have s': "s' = s1" by (subst (asm) run_steps.simps) simp
      from c Inr True have "getNumberOfRemainingTilesToCollapse s1 = 0"
        by (auto elim: collapseNext_Inr)
      with ci s' show ?thesis by simp
    next
      case False
      with c Inr less.prems(4) have r: "run_steps s1 = Some (None, s')"
        by (subst (asm) run_steps.simps) simp
      have "card (unresolved s1) < card (unresolved s)"
        using collapseNext_progress[OF c[unfolded Inr]] finite_unresolved
        by (simp add: psubset_card_mono)
      moreover from ci have i1: "invariant s1" by simp
      moreover from ci less.prems(2) have w1: "weights_usable s1" by (simp add: weights_usable_def)
      moreover from ci have n1: "whole_seed (rnd s1)" by (simp add: natural_seed_whole)
      ultimately have "invariant s' \<and> getNumberOfRemainingTilesToCollapse s' = 0 \<and> rules s' = rules s1"
        using r by (rule less.hyps)
      with ci show ?thesis by simp
    qed
  qed
qed

lemma invariant_final:
  assumes "invariant s" "getNumberOfRemainingTilesToCollapse s = 0"
  shows "weakly_consistent s"
proof -
  from assms(1) have g: "grid s" and pk: "pairs_ok s" by (simp_all add: invariant_def)
  have "\<And>p d. p < length (tiles s) \<Longrightarrow> consistent_pair s (int p) d"
  proof -
    fix p d assume p: "p < length (tiles s)"
    show "consistent_pair s (int p) d"
    proof (cases "neighbor s d (int p) = - 1")
      case True
      then show ?thesis by (simp add: consistent_pair_def)
    next
      case False
      let ?j = "neighbor s d (int p)"
      from neighbor_symmetric[OF g _ _ refl False] p have j: "0 \<le> ?j" "?j < int (length (tiles s))"
        by simp_all
      from grid_tile_at[OF g j] obtain n where n: "tile_at (tiles s) ?j = Some n" by blast
      from grid_tile_at[OF g, of "int p"] p obtain c where c: "tile_at (tiles s) (int p) = Some c"
        by auto
      have r: "entropy c = 0" "entropy n = 0"
        using remaining_zero[OF assms(2)] c n by simp_all
      from pk have "pair_ok s (int p) d" by (simp add: pairs_ok_def)
      from pair_okD[OF this c n r] c n r False show ?thesis
        by (simp add: consistent_pair_def)
    qed
  qed
  then show ?thesis by (simp add: weakly_consistent_def list_all_iff)
qed

lemma symmetric_allows:
  assumes sym: "rules_symmetric rs"
    and a: "allows rs (Some tc) d (Some tn) \<or> allows rs (Some tn) (opposite d) (Some tc)"
  shows "\<exists>r. map_of rs tc = Some r \<and> tn \<in> set (rule_list d r)"
  using a
proof
  assume "allows rs (Some tc) d (Some tn)"
  then obtain r where r: "map_of rs tc = Some r" "rule_list d r = [] \<or> tn \<in> set (rule_list d r)"
    by (auto simp: allows_def split: option.splits)
  moreover from sym r(1) have "rule_list d r \<noteq> []" unfolding rules_symmetric_def by blast
  ultimately show ?thesis by simp
next
  assume "allows rs (Some tn) (opposite d) (Some tc)"
  then obtain r where r: "map_of rs tn = Some r"
    "rule_list (opposite d) r = [] \<or> tc \<in> set (rule_list (opposite d) r)"
    by (auto simp: allows_def split: option.splits)
  from sym r(1) have "rule_list (opposite d) r \<noteq> []" unfolding rules_symmetric_def by blast
  with r(2) have m: "tc \<in> set (rule_list (opposite d) r)" by simp
  from sym r(1) m obtain rb where "map_of rs tc = Some rb"
    "tn \<in> set (rule_list (opposite (opposite d)) rb)"
    unfolding rules_symmetric_def by blast
  then show ?thesis by (simp add: opposite_opposite)
qed

lemma allows_typed: "allows rs a d b \<Longrightarrow> \<exists>ta. a = Some ta"
  by (cases a) (simp_all add: allows_def)

lemma symmetric_consistent_pair:
  assumes sym: "rules_symmetric (rules s)" and c: "consistent_pair s i d"
  shows "claimed_pair s i d"
proof (cases "neighbor s d i = - 1")
  case True
  then show ?thesis by (simp add: claimed_pair_def split: option.splits)
next
  case False
  with c obtain c' n where t: "tile_at (tiles s) i = Some c'" "tile_at (tiles s) (neighbor s d i) = Some n"
    and a: "allows (rules s) (type c') d (type n) \<or> allows (rules s) (type n) (opposite d) (type c')"
    by (auto simp: consistent_pair_def split: option.splits)
  have "\<exists>tc tn. type c' = Some tc \<and> type n = Some tn"
  proof -
    from a sym have "\<exists>tc. type c' = Some tc"
      by (cases "type c'") (auto simp: allows_def rules_symmetric_def split: option.splits)
    moreover from a sym have "\<exists>tn. type n = Some tn"
      by (cases "type n") (auto simp: allows_def rules_symmetric_def split: option.splits)
    ultimately show ?thesis by blast
  qed
  then obtain tc tn where ty: "type c' = Some tc" "type n = Some tn" by blast
  from symmetric_allows[OF sym a[unfolded ty]] obtain r where
    "map_of (rules s) tc = Some r" "tn \<in> set (rule_list d r)" by blast
  with t ty show ?thesis by (simp add: claimed_pair_def)
qed

lemma symmetric_weakly_consistent:
  "rules_symmetric (rules s) \<Longrightarrow> weakly_consistent s \<Longrightarrow> locally_consistent s"
  unfolding weakly_consistent_def locally_consistent_def list_all_iff
  using symmetric_consistent_pair by blast

section \<open>From the constructor to the invariant\<close>

text \<open>The buffer state plays no part in the invariant.\<close>

lemma neighbor_bufferstate: "neighbor (s\<lparr>bufferstate := b\<rparr>) d i = neighbor s d i"
  by (cases d)
     (simp_all add: neighbor_def upTileIndex_def downTileIndex_def leftTileIndex_def
        rightTileIndex_def)

lemma testArray_bufferstate: "testArray (s\<lparr>bufferstate := b\<rparr>) i = testArray s i"
  by (rule testArray_cong)
     (simp add: neighbor_bufferstate neighborAvailableTiles_def
           cong: option.case_cong if_cong)

lemma invariant_bufferstate: "invariant (s\<lparr>bufferstate := b\<rparr>) = invariant s"
proof -
  have g: "grid (s\<lparr>bufferstate := b\<rparr>) = grid s" by (simp add: grid_def)
  have a: "\<And>p. avail_ok (s\<lparr>bufferstate := b\<rparr>) p = avail_ok s p"
    unfolding avail_ok_def testArray_bufferstate by simp
  have e: "\<And>p. entropy_ok (s\<lparr>bufferstate := b\<rparr>) p = entropy_ok s p"
    unfolding entropy_ok_def testArray_bufferstate by simp
  have p: "\<And>i d. pair_ok (s\<lparr>bufferstate := b\<rparr>) i d = pair_ok s i d"
    unfolding pair_ok_def neighbor_bufferstate by (simp cong: option.case_cong)
  show ?thesis by (simp add: invariant_def in_step_def pairs_ok_def g a e p)
qed

lemma weakly_consistent_bufferstate:
  "weakly_consistent (s\<lparr>bufferstate := b\<rparr>) = weakly_consistent s"
proof -
  have "\<And>i d. consistent_pair (s\<lparr>bufferstate := b\<rparr>) i d = consistent_pair s i d"
    unfolding consistent_pair_def neighbor_bufferstate by (simp cong: option.case_cong)
  then show ?thesis by (simp add: weakly_consistent_def)
qed

lemma remaining_bufferstate:
  "getNumberOfRemainingTilesToCollapse (s\<lparr>bufferstate := b\<rparr>) = getNumberOfRemainingTilesToCollapse s"
  by (simp add: getNumberOfRemainingTilesToCollapse_def)

text \<open>From an unresolved grid to the invariant.\<close>

lemma unresolved_grid_tile:
  assumes "unresolved_grid s" "tile_at (tiles s) i = Some t"
  shows "entropy t \<noteq> 0 \<and> availableTiles t = []"
proof -
  from tile_at_range[OF assms(2)] have "nat i < length (tiles s)" by auto
  moreover from assms(2) have "tiles s ! nat i = Some t" by (simp add: tile_at_def split: if_splits)
  ultimately show ?thesis using assms(1) unfolding unresolved_grid_def by blast
qed

lemma unresolved_grid_seeded: "unresolved_grid s \<Longrightarrow> seeded (s\<lparr>bufferstate := b\<rparr>)"
proof -
  assume u: "unresolved_grid s"
  then have g: "grid (s\<lparr>bufferstate := b\<rparr>)" by (simp add: unresolved_grid_def grid_def)
  have t: "\<And>i t. tile_at (tiles s) i = Some t \<Longrightarrow> entropy t \<noteq> 0 \<and> availableTiles t = []"
    using u by (rule unresolved_grid_tile)
  have "\<And>i t. tile_at (tiles (s\<lparr>bufferstate := b\<rparr>)) i = Some t \<Longrightarrow> availableTiles t = []"
    using t by simp
  moreover have "\<And>i j ti tj. tile_at (tiles (s\<lparr>bufferstate := b\<rparr>)) i = Some ti
      \<Longrightarrow> entropy ti = 0 \<Longrightarrow> i = j"
    using t by simp
  ultimately show ?thesis unfolding seeded_def using g by blast
qed

lemma randomStart_seeded:
  assumes u: "unresolved_grid s" and r: "randomStart (s\<lparr>bufferstate := b\<rparr>) = (None, s1)"
  shows "seeded s1 \<and> weighting s1 = weighting s \<and> rules s1 = rules s
     \<and> rnd s1 = snd (getRandom (snd (getRandom (rnd s))))"
proof -
  let ?s0 = "s\<lparr>bufferstate := b\<rparr>"
  let ?z = "zip [0..<length (tiles s)] (tiles s)"
  obtain ft r1 where pk: "pickOne (rnd ?s0) ?z = (ft, r1)" by (cases "pickOne (rnd ?s0) ?z")
  from r pk obtain p t where ft: "ft = Some (p, Some t)"
    by (cases ft) (auto simp: randomStart_def Let_def split: prod.splits option.splits)
  obtain ty r2 where py: "pickOne r1 (map fst (rules s)) = (ty, r2)"
    by (cases "pickOne r1 (map fst (rules s))")
  from r pk ft py have s1: "s1 = attempt ?s0 p t ty r2"
    by (simp add: randomStart_def Let_def attempt_def)
  from pk ft have "fst (pickOne (rnd ?s0) ?z) = Some (p, Some t)" by simp
  then have "(p, Some t) \<in> set ?z" by (rule pickOne_Some_mem)
  then have p: "p < length (tiles ?s0)" "tiles ?s0 ! p = Some t"
    by (auto simp: set_zip)
  from u have g: "grid ?s0" by (simp add: unresolved_grid_def grid_def)
  have un: "\<And>i x. tile_at (tiles s) i = Some x \<Longrightarrow> entropy x \<noteq> 0 \<and> availableTiles x = []"
    using u by (rule unresolved_grid_tile)
  have at: "\<And>j. tile_at (tiles s1) j =
      (if j = int p then Some (t\<lparr>type := ty, entropy := 0\<rparr>) else tile_at (tiles s) j)"
    unfolding s1 tile_at_attempt[OF p] by simp
  have tp: "tile_at (tiles s) (int p) = Some t" using p by (simp add: tile_at_def)
  have g1: "grid s1" unfolding s1 using g p by (rule attempt_grid)
  have a1: "\<And>i x. tile_at (tiles s1) i = Some x \<Longrightarrow> availableTiles x = []"
    using un tp by (auto simp: at split: if_splits)
  have r1: "\<And>i x. tile_at (tiles s1) i = Some x \<Longrightarrow> entropy x = 0 \<Longrightarrow> i = int p"
    using un by (auto simp: at split: if_splits)
  have "seeded s1" unfolding seeded_def using g1 a1 r1 by metis
  moreover have "weighting s1 = weighting s" "rules s1 = rules s"
    unfolding s1 by (simp_all add: attempt_fields)
  moreover have "rnd s1 = snd (getRandom (snd (getRandom (rnd s))))"
  proof -
    have "r1 = snd (getRandom (rnd s))" using pk snd_pickOne[of "rnd ?s0" ?z] by simp
    moreover have "r2 = snd (getRandom r1)" using py snd_pickOne[of r1 "map fst (rules s)"] by simp
    ultimately show ?thesis unfolding s1 by (simp add: attempt_def rnd_modify_tile)
  qed
  ultimately show ?thesis by simp
qed

lemma seeded_prepare:
  assumes sd: "seeded s1" and pr: "prepareTileDataForCollapsing s1 = (None, s2)"
  shows "invariant s2 \<and> weighting s2 = weighting s1 \<and> rules s2 = rules s1 \<and> rnd s2 = rnd s1"
proof -
  from sd have g: "grid s1"
    and a: "\<And>i t. tile_at (tiles s1) i = Some t \<Longrightarrow> availableTiles t = []"
    and one: "\<And>i j ti tj. tile_at (tiles s1) i = Some ti \<Longrightarrow> tile_at (tiles s1) j = Some tj
        \<Longrightarrow> entropy ti = 0 \<Longrightarrow> entropy tj = 0 \<Longrightarrow> i = j"
    unfolding seeded_def by blast+
  have em: "\<forall>p. empty_ok s1 p"
    using a by (auto simp: empty_ok_def split: option.splits)
  from prepare_sync[OF pr em] have fr: "frame s1 s2" and st: "in_step s2" by simp_all
  have "\<And>i d. pair_ok s1 i d"
  proof -
    fix i d
    show "pair_ok s1 i d"
    proof (rule pair_okI)
      fix c n
      assume c: "tile_at (tiles s1) i = Some c" and n: "tile_at (tiles s1) (neighbor s1 d i) = Some n"
        and res: "entropy c = 0" "entropy n = 0"
      from one[OF c n res] have e: "neighbor s1 d i = i" by simp
      from tile_at_range[OF c] have ir: "0 \<le> i" "i < int (length (tiles s1))" by simp_all
      then have "neighbor s1 d i \<noteq> - 1" using e by simp
      from neighbor_symmetric[OF g ir refl this] e have False by simp
      then show "allows (rules s1) (type c) d (type n)
          \<or> allows (rules s1) (type n) (opposite d) (type c)" ..
    qed
  qed
  then have "pairs_ok s1" by (simp add: pairs_ok_def)
  with fr have "pairs_ok s2" by (rule frame_pairs_ok)
  moreover have "grid s2" using fr g by (rule frame_grid)
  moreover have "weighting s2 = weighting s1" "rules s2 = rules s1" "rnd s2 = rnd s1"
    using fr by (simp_all add: frame_def)
  ultimately show ?thesis using st by (simp add: invariant_def)
qed

lemma generateLevel_error_free:
  assumes u: "unresolved_grid s" and w: "weights_usable s" and n: "whole_seed (rnd s)"
    and gl: "generateLevel s = Some (Inr None, s')"
  shows "bufferstate s' = collapsed \<and> getNumberOfRemainingTilesToCollapse s' = 0
     \<and> weakly_consistent s' \<and> rules s' = rules s"
proof -
  let ?s0 = "s\<lparr>bufferstate := ready\<rparr>"
  from gl have rdy: "isDataReady s = ready"
    by (cases "isDataReady s = ready") (simp_all add: generateLevel_def Let_def)
  obtain e1 s1 where st: "(if startWithRandom s then randomStart ?s0 else (None, ?s0)) = (e1, s1)"
    by (cases "if startWithRandom s then randomStart ?s0 else (None, ?s0)")
  obtain e2 s2 where pr: "prepareTileDataForCollapsing s1 = (e2, s2)"
    by (cases "prepareTileDataForCollapsing s1")
  obtain lg s3 where rs: "run_steps (s2\<lparr>bufferstate := collapsing\<rparr>) = Some (lg, s3)"
    using run_steps_terminates by (metis surj_pair)
  have gl': "generateLevel s =
      (case (e1, s1) of
         (Some e, s1) \<Rightarrow> Some (Inl e, s1)
       | (None, s1) \<Rightarrow>
           (case prepareTileDataForCollapsing s1 of
              (Some e, s2) \<Rightarrow> Some (Inl e, s2)
            | (None, s2) \<Rightarrow>
                (case run_steps (s2\<lparr>bufferstate := collapsing\<rparr>) of
                   None \<Rightarrow> None
                 | Some (logged, s3) \<Rightarrow>
                     Some (Inr logged, s3\<lparr>bufferstate := collapsed\<rparr>))))"
    unfolding st[symmetric] using rdy by (simp add: generateLevel_def Let_def)
  from gl have e1: "e1 = None" unfolding gl' by (cases e1) simp_all
  from gl have e2: "e2 = None" unfolding gl' e1 using pr by (cases e2) simp_all
  from gl have lg: "lg = None" and s': "s' = s3\<lparr>bufferstate := collapsed\<rparr>"
    unfolding gl' e1 using pr e2 rs by simp_all
  have sd: "seeded s1 \<and> weighting s1 = weighting s \<and> rules s1 = rules s
      \<and> whole_seed (rnd s1)"
  proof (cases "startWithRandom s")
    case True
    with st e1 have "randomStart ?s0 = (None, s1)" by simp
    from randomStart_seeded[OF u this] n show ?thesis by (simp add: whole_seed_getRandom)
  next
    case False
    with st have "s1 = ?s0" by simp
    with unresolved_grid_seeded[OF u] n show ?thesis by simp
  qed
  from seeded_prepare[OF conjunct1[OF sd] pr[unfolded e2]]
  have i2: "invariant s2" and w2: "weighting s2 = weighting s1" and r2: "rules s2 = rules s1"
    and n2: "rnd s2 = rnd s1"
    by simp_all
  have "invariant (s2\<lparr>bufferstate := collapsing\<rparr>)" using i2 by (simp add: invariant_bufferstate)
  moreover have "weights_usable (s2\<lparr>bufferstate := collapsing\<rparr>)"
    using w w2 r2 sd by (simp add: weights_usable_def)
  moreover have "whole_seed (rnd (s2\<lparr>bufferstate := collapsing\<rparr>))"
    using n2 sd by simp
  ultimately have "invariant s3 \<and> getNumberOfRemainingTilesToCollapse s3 = 0
      \<and> rules s3 = rules (s2\<lparr>bufferstate := collapsing\<rparr>)"
    using rs[unfolded lg] by (rule run_steps_invariant)
  then have "weakly_consistent s3" "getNumberOfRemainingTilesToCollapse s3 = 0" "rules s3 = rules s"
    using invariant_final r2 sd by simp_all
  then show ?thesis unfolding s'
    by (simp add: weakly_consistent_bufferstate remaining_bufferstate)
qed

section \<open>Constructed states and example runs\<close>

lemma unresolved_grid_constructor:
  assumes "0 < w"
  shows "unresolved_grid (setRules rs (WFC_constructor w h sd now))"
proof -
  let ?s = "setRules rs (WFC_constructor w h sd now)"
  have t: "tiles ?s = map fresh_tile [0..<nat (w * h)]" and wd: "width ?s = w" "height ?s = h"
    by (simp_all add: setRules_def WFC_constructor_def)
  have "\<And>p. p < nat (w * h) \<Longrightarrow>
      tiles ?s ! p = Some \<lparr>index = int p, type = Some '''', entropy = \<infinity>, availableTiles = []\<rparr>"
    unfolding t by (simp add: fresh_tile_def)
  then show ?thesis
    unfolding unresolved_grid_def grid_def wd using assms by (simp add: t)
qed

lemma constructor_seed_nonzero:
  "truthy_number sd \<Longrightarrow> WFC_constructor w h (Some sd) now = WFC_constructor w h (Some sd) now'"
  by (simp add: WFC_constructor_def)

lemma rules_checker_symmetric: "rules_symmetric rules_checker"
  unfolding rules_symmetric_def
proof (intro allI impI)
  fix a ra d
  assume "map_of rules_checker a = Some ra"
  then show "rule_list d ra \<noteq> [] \<and>
      (\<forall>b\<in>set (rule_list d ra). \<exists>rb. map_of rules_checker b = Some rb
          \<and> a \<in> set (rule_list (opposite d) rb))"
    by (cases d) (auto simp: rules_checker_def rule_list_def opposite_def split: if_splits)
qed

lemma run_checker_2_2:
  "generateLevel (setRules rules_checker (WFC_constructor 2 2 (Some (Integer 1)) 0)) =
     Some (Inr None,
       \<lparr>width = 2, height = 2, numTiles = 4, rnd = \<lparr>seed = Integer 2388811721\<rparr>,
        tiles = [Some \<lparr>index = 0, type = Some ''A'', entropy = 0, availableTiles = []\<rparr>,
                 Some \<lparr>index = 1, type = Some ''B'', entropy = 0, availableTiles = [''B'']\<rparr>,
                 Some \<lparr>index = 2, type = Some ''B'', entropy = 0, availableTiles = [''B'']\<rparr>,
                 Some \<lparr>index = 3, type = Some ''A'', entropy = 0, availableTiles = [''A'']\<rparr>],
        rules = rules_checker, weighting = Map.empty, bufferstate = collapsed,
        startWithRandom = True\<rparr>)"
  apply (simp add: rules_checker_def wfc_eval)
  apply (subst run_steps.simps)
  apply (simp add: rules_checker_def wfc_eval)
  apply (subst run_steps.simps)
  apply (simp add: rules_checker_def wfc_eval)
  apply (subst run_steps.simps)
  apply (simp add: rules_checker_def wfc_eval)
  done

lemma run_asymmetric_2_1:
  "generateLevel (setRules rules_asymmetric (WFC_constructor 2 1 (Some (Integer 1)) 0)) =
     Some (Inr None,
       \<lparr>width = 2, height = 1, numTiles = 2, rnd = \<lparr>seed = Integer 3027450565\<rparr>,
        tiles = [Some \<lparr>index = 0, type = Some ''A'', entropy = 0, availableTiles = []\<rparr>,
                 Some \<lparr>index = 1, type = Some ''B'', entropy = 0, availableTiles = [''B'']\<rparr>],
        rules = rules_asymmetric, weighting = Map.empty, bufferstate = collapsed,
        startWithRandom = True\<rparr>)"
  apply (simp add: rules_asymmetric_def wfc_eval)
  apply (subst run_steps.simps)
  apply (simp add: rules_asymmetric_def wfc_eval)
  done

text \<open>
  Under \<open>rules_inherited\<close> and without weights the only candidate of the second cell,
  \<open>constructor\<close>, is expanded to no copy: the weighted pick returns \<open>undefined\<close>, the
  cell is resolved without a type, and the run ends without error.
\<close>

lemma run_inherited_2_1:
  "map_option (\<lambda>(r, s). (r, bufferstate s, map (map_option type) (tiles s)))
     (generateLevel (setRules rules_inherited (WFC_constructor 2 1 (Some (Integer 1)) 0)))
     = Some (Inr None, collapsed, [Some (Some ''A''), Some None])"
  apply (simp add: rules_inherited_def wfc_eval)
  apply (subst run_steps.simps)
  apply (simp add: rules_inherited_def wfc_eval)
  done
section \<open>The claims\<close>

subsection \<open>C7: the uniform pick\<close>




subsection \<open>C8: propagation never overwrites a resolved cell\<close>

text \<open>
  C8: a cell whose entropy is \<open>0\<close> before \<^verbatim>\<open>_setEntropyOfSurroundingTiles\<close> runs has
  the same entropy and type afterwards, in all four directions. Only the left update
  tests the stored entropy; for the other three the entropy computed for a resolved
  cell is \<open>0\<close>, which is falsy, so nothing is stored. The theorem holds for every cell
  \<open>j\<close>, for every centre index \<open>i\<close>, and also when propagation throws: the whole tile
  is unchanged.
\<close>

theorem propagation_keeps_resolved:
  "tile_at (tiles s) j = Some t \<Longrightarrow> entropy t = 0
   \<Longrightarrow> tile_at (tiles (snd (setEntropyOfSurroundingTiles s i))) j = Some t"
proof -
  assume t: "tile_at (tiles s) j = Some t" "entropy t = 0"
  have "frame s (snd (setEntropyOfSurroundingTiles s i))"
    by (rule setEntropyOfSurroundingTiles_frame[of s i "fst (setEntropyOfSurroundingTiles s i)"]) simp
  from frame_tile_at[OF this, of j] t show ?thesis
    by (auto simp: tile_frame_def split: option.splits)
qed

theorem propagation_keeps_resolved_witness:
  "tile_at (tiles line3_seeded) 0
     = Some \<lparr>index = 0, type = Some ''A'', entropy = 0, availableTiles = []\<rparr>
   \<and> entropy \<lparr>index = 0, type = Some ''A'', entropy = 0, availableTiles = []\<rparr> = 0
   \<and> tile_at (tiles (snd (setEntropyOfSurroundingTiles line3_seeded 1))) 0
     = Some \<lparr>index = 0, type = Some ''A'', entropy = 0, availableTiles = []\<rparr>"
proof -
  have a: "tile_at (tiles line3_seeded) 0
             = Some \<lparr>index = 0, type = Some ''A'', entropy = 0, availableTiles = []\<rparr>"
    by (simp add: line3_seeded_def tile_at_def)
  have b: "entropy \<lparr>index = 0, type = Some ''A'', entropy = 0, availableTiles = []\<rparr> = 0"
    by simp
  from a b propagation_keeps_resolved[OF a b, of 1] show ?thesis by simp
qed

subsection \<open>C10: what \<^verbatim>\<open>setTiles\<close> stores\<close>

text \<open>
  C10: for every collection passed to \<^verbatim>\<open>setTiles\<close>, an entry whose index is \<open>0\<close> is
  ignored (the test \<^verbatim>\<open>if (inputTileData.index)\<close> is false for it), and an applied entry
  stores the \<^verbatim>\<open>type\<close> property of the entry itself, not that of its nested tile, so
  the stored type is \<open>undefined\<close> when the entry has no such property.

  Three facts, for every collection \<open>es\<close>, flag \<open>f\<close> and state \<open>s\<close>: dropping the
  entries of index \<open>0\<close> changes nothing; replacing the nested tiles by any others
  changes nothing; and the cell read at an index \<open>j\<close> afterwards is the old one when
  \<open>j \<le> 0\<close> or no entry has index \<open>j\<close>, and otherwise carries the \<open>entry_type\<close> of the
  last entry of index \<open>j\<close>, with entropy \<open>\<infinity>\<close>. (An entry of negative index is written
  to a property of the array that is no element; the model of the array holds the
  elements only.)
\<close>

theorem setTiles_ignores_index_zero_and_nested_tile:
  "setTiles (filter (\<lambda>e. entry_index e \<noteq> 0) es) f s = setTiles es f s
   \<and> setTiles (map (\<lambda>e. e\<lparr>entry_tile := g e\<rparr>) es) f s = setTiles es f s
   \<and> tile_at (tiles (setTiles es f s)) j =
       (if j \<le> 0 then tile_at (tiles s) j
        else case find (\<lambda>e. entry_index e = j) (rev es) of
               None \<Rightarrow> tile_at (tiles s) j
             | Some e \<Rightarrow>
                 Some \<lparr>index = j, type = entry_type e, entropy = \<infinity>, availableTiles = []\<rparr>)"
  by (simp add: setTiles_def fold_setTiles_entry_filter fold_setTiles_entry_tile
        tile_at_fold_setTiles_entry)

subsection \<open>C6: \<^verbatim>\<open>generateLevel\<close> on data that is not ready\<close>

text \<open>
  C6 says that \<^verbatim>\<open>generateLevel\<close>, called while the tile array is empty or no rule is
  registered, fails with \<open>NotReady\<close> and leaves tiles, rules, weights and the buffer
  state as they were. The first statement of \<^verbatim>\<open>generateLevel\<close> is
  \<^verbatim>\<open>this.bufferstate = this._isDataReady()\<close>: the call fails with \<open>NotReady\<close> and
  leaves everything else as it was, but the buffer state is set to \<open>unknown\<close>.
\<close>

theorem generateLevel_not_ready:
  "length (tiles s) = 0 \<or> rules s = []
   \<Longrightarrow> generateLevel s = Some (Inl NotReady, s\<lparr>bufferstate := unknown\<rparr>)"
  by (auto simp: generateLevel_def isDataReady_def Let_def)

theorem generateLevel_not_ready_witness:
  "(length (tiles (WFC_constructor 2 1 (Some (Integer 1)) 0)) = 0 \<or> rules (WFC_constructor 2 1 (Some (Integer 1)) 0) = [])
   \<and> generateLevel (WFC_constructor 2 1 (Some (Integer 1)) 0)
       = Some (Inl NotReady, (WFC_constructor 2 1 (Some (Integer 1)) 0)\<lparr>bufferstate := unknown\<rparr>)"
proof -
  have h: "length (tiles (WFC_constructor 2 1 (Some (Integer 1)) 0)) = 0 \<or> rules (WFC_constructor 2 1 (Some (Integer 1)) 0) = []"
    by (simp add: WFC_constructor_def)
  from h generateLevel_not_ready[OF h] show ?thesis by simp
qed

text \<open>
  A level of two cells is generated, which leaves the buffer \<open>collapsed\<close>; the rules
  are reset; \<^verbatim>\<open>generateLevel\<close> is called again. It fails with \<open>NotReady\<close>, and the
  buffer state is \<open>unknown\<close>, not \<open>collapsed\<close> as before the call.
\<close>

theorem generateLevel_not_ready_counterexample:
  "bufferstate (resetRules (snd (the (generateLevel (setRules rules_checker (WFC_constructor 2 1 (Some (Integer 1)) 0))))))
     = collapsed
   \<and> map_option (\<lambda>(r, s). (r, bufferstate s))
        (generateLevel (resetRules (snd (the (generateLevel (setRules rules_checker (WFC_constructor 2 1 (Some (Integer 1)) 0)))))))
     = Some (Inl NotReady, unknown)"
  unfolding run_checker_2_1
  by (simp add: resetRules_def generateLevel_def isDataReady_def Let_def)

subsection \<open>C9: entropy \<open>0\<close> if and only if a type is assigned\<close>

text \<open>
  C9 says that every operation that assigns a type, pre-seeding by \<^verbatim>\<open>setTileData\<close> and
  \<^verbatim>\<open>setTiles\<close> included, also sets the entropy to \<open>0\<close>. The random start and the
  resolution of a cell do; \<^verbatim>\<open>setTileData\<close> and \<^verbatim>\<open>setTiles\<close> store the type with
  \<^verbatim>\<open>entropy: Infinity\<close>. Pre-seeding cell \<open>0\<close> of a one-cell grid with type \<open>A\<close>
  leaves a cell of type \<open>A\<close> and entropy \<open>\<infinity>\<close>.
\<close>

theorem setTileData_leaves_entropy_infinite:
  "tile_at (tiles (setTileData \<lparr>index = 0, type = Some ''A'', entropy = 0, availableTiles = []\<rparr> 0 True
                     (WFC_constructor 1 1 (Some (Integer 1)) 0))) 0
     = Some \<lparr>index = 0, type = Some ''A'', entropy = \<infinity>, availableTiles = []\<rparr>"
  by (simp add: wfc_eval)

subsection \<open>C4: determinism for a fixed seed\<close>

text \<open>
  C4 says that for every fixed seed, size, rule set, weight map and pre-seeding two
  runs produce the same grid. The constructor tests \<^verbatim>\<open>options.seed ? ... : ...\<close>, so
  the seed \<open>0\<close> is taken for a missing seed and replaced by \<^verbatim>\<open>Date.now()\<close>. With seed
  \<open>0\<close>, a grid of two cells and the checkerboard rules, the run constructed at time
  \<open>1\<close> yields \<open>A B\<close> and the run constructed at time \<open>3\<close> yields \<open>B A\<close>.
  (So it is at present-day values of the clock: \<open>B A\<close> at time \<open>1762158000001\<close> and
  \<open>A B\<close> one millisecond later, \<open>run_checker_seed0_now1762158000001\<close> and
  \<open>run_checker_seed0_now1762158000002\<close> above.)
\<close>

theorem seed_zero_runs_differ:
  "map_option (\<lambda>(r, s). map (map_option type) (tiles s))
     (generateLevel (setRules rules_checker (WFC_constructor 2 1 (Some (Integer 0)) 1)))
     = Some [Some (Some ''A''), Some (Some ''B'')]
   \<and> map_option (\<lambda>(r, s). map (map_option type) (tiles s))
     (generateLevel (setRules rules_checker (WFC_constructor 2 1 (Some (Integer 0)) 3)))
     = Some [Some (Some ''B''), Some (Some ''A'')]"
  using run_checker_seed0_now1 run_checker_seed0_now3 by simp

subsection \<open>C2: an error in the step loop\<close>

text \<open>
  C2 says that an error raised in the step loop leaves the buffer in a state other than
  \<open>collapsed\<close>, so that \<^verbatim>\<open>getTileData\<close> then fails with \<open>NotReady\<close>. The driver loop
  catches the error, logs it, sets \<open>done\<close>, and the statement after the loop sets the
  state to \<open>collapsed\<close> all the same. On a row of three cells with seed \<open>1\<close> and rules
  that name an undeclared type, the second resolution fails (\<open>CollapseFailed\<close>), the
  buffer ends \<open>collapsed\<close>, and \<^verbatim>\<open>getTileData(2)\<close> returns the third cell, which is
  unresolved.
\<close>

theorem error_run_ends_collapsed:
  "(case generateLevel (setRules rules_undeclared (WFC_constructor 3 1 (Some (Integer 1)) 0)) of
      Some (Inr (Some CollapseFailed), s') \<Rightarrow>
        bufferstate s' = collapsed
        \<and> getTileData s' 2 = Inr \<lparr>index = 2, type = Some '''', entropy = \<infinity>, availableTiles = []\<rparr>
    | _ \<Rightarrow> False)"
  apply (simp add: rules_undeclared_def wfc_eval)
  apply (subst run_steps.simps)
  apply (simp add: rules_undeclared_def wfc_eval)
  done

subsection \<open>C5: retries of a failed resolution\<close>

text \<open>
  C5 says that a failed resolution attempt is retried, as many times as the cell has
  candidates, before the run fails with \<open>CollapseFailed\<close>. The \<^verbatim>\<open>catch\<close> block
  decrements \<open>retries\<close>, but the next statement, still inside the loop, is
  \<^verbatim>\<open>if (!passedEntropyTest) throw ...\<close>: the first failure is fatal. In
  \<open>line3_two_candidates\<close> the middle cell has two candidates; the step picks the cell,
  picks one type, fails to propagate and throws \<open>CollapseFailed\<close>, having drawn two
  random numbers in all.
\<close>

theorem failed_attempt_is_not_retried:
  "fst (collapseNext line3_two_candidates) = Inl CollapseFailed
   \<and> rnd (snd (collapseNext line3_two_candidates))
       = snd (getRandom (snd (getRandom (rnd line3_two_candidates))))
   \<and> tile_at (tiles (snd (collapseNext line3_two_candidates))) 1
       = Some \<lparr>index = 1, type = Some ''B'', entropy = 0, availableTiles = [''B'', ''C'']\<rparr>"
  by (simp add: line3_two_candidates_def rules_two_undeclared_def wfc_eval)

subsection \<open>C3: the entropy computation\<close>

text \<open>
  C3 says that the entropy computation returns \<open>0\<close> for a resolved cell, \<open>\<infinity>\<close> when no
  in-bounds resolved neighbour contributes a list, and otherwise the size of the
  intersection of all contributed lists, in the order of the first one, failing with a
  contradiction exactly when the intersection is empty. \<^verbatim>\<open>_getEntropy\<close> pushes a
  neighbour's list only \<^verbatim>\<open>if (upTileAvailableTiles.length)\<close>: an empty list of a
  resolved neighbour is dropped, not intersected. With that change the claim holds, for
  every state and index whose neighbours can be read: the result is \<open>0\<close> for a resolved
  cell, \<open>\<infinity>\<close> when no contributed list is non-empty, the error when the non-empty
  lists have an empty intersection, and otherwise the length of that intersection,
  which keeps the order of the first non-empty list and is stored as the cell's
  candidate list; in the first two cases the state is unchanged.
\<close>

theorem getEntropy_intersects_nonempty_lists:
  assumes "neighbors_readable s i"
  shows "map_sum id fst (getEntropy s i) = entropy_of_lists s i (nonempty_contributed s i)
     \<and> (\<forall>e s'. getEntropy s i = Inr (e, s') \<longrightarrow>
           s' = (if e = 0 \<or> e = \<infinity> then s
                 else modify_tile (nat i)
                        (\<lambda>t. t\<lparr>availableTiles := intersection_in_order (nonempty_contributed s i)\<rparr>) s))"
  by (auto simp: getEntropy_def testArray_readable[OF assms] entropy_of_lists_def consolodate_eq
        Let_def zero_enat_def split: option.splits)

theorem getEntropy_intersects_nonempty_lists_witness:
  "neighbors_readable line3_seeded 1 \<and> map_sum id fst (getEntropy line3_seeded 1) = Inr 1"
  using getEntropy_intersects_nonempty_lists[OF line3_readable] line3_readable
  by (simp add: entropy_of_lists_def nonempty_contributed_def spec_contributed_def
        spec_neighbor_list_def intersection_in_order_def line3_seeded_def rules_undeclared_def
        wfc_eval)

text \<open>
  In \<open>pair_isolated\<close> the second cell has one in-bounds resolved neighbour, whose list
  is empty. The computation worded by the specification fails with the contradiction
  error; \<^verbatim>\<open>_getEntropy\<close> returns \<open>\<infinity>\<close>.
\<close>

theorem getEntropy_empty_list_counterexample:
  "map_sum id fst (getEntropy pair_isolated 1) = Inr \<infinity>
   \<and> spec_computeEntropy pair_isolated 1 = Inl BrokenPlot"
  by (simp add: spec_computeEntropy_def entropy_of_lists_def spec_contributed_def
        spec_neighbor_list_def intersection_in_order_def pair_isolated_def wfc_eval)

subsection \<open>C1: local consistency of the output\<close>

text \<open>
  C1 says that in every grid of a run that ends \<open>collapsed\<close>, the type of each
  in-bounds neighbour \<open>n\<close> of a cell \<open>c\<close> in direction \<open>d\<close> is a member of
  \<open>rules[c.type][d]\<close>. The algorithm draws the type of a cell from the lists of the
  neighbours resolved before it, each list read from the neighbour towards the cell,
  and skips a list that is empty; it never reads the list of the new cell towards an
  older neighbour. What holds, for every run whose step loop raises no error and that
  starts from an unresolved grid, with a generator whose state has no fractional part
  (an integer of either sign and any size, an infinity or \<open>NaN\<close>) and with usable
  weights (every type that the rules list has a positive weight, or no weight and a
  name that is not a member of \<^verbatim>\<open>Object.prototype\<close>, and the weighted copies of
  the listed types fit an array): the buffer ends \<open>collapsed\<close>, no cell is left to
  collapse, and every pair of adjacent cells is consistent in at least one direction:
  the type of \<open>n\<close> is in \<open>rules[c.type][d]\<close> or that list is empty, or the type of
  \<open>c\<close> is in \<open>rules[n.type][opposite d]\<close> or that list is empty. If moreover the
  rule set is symmetric and has no empty list, the grid is locally consistent as the
  claim says. (A run whose step loop raises an error also ends \<open>collapsed\<close>; nothing
  is stated about it here, nor about a generator state with a fractional part. Without
  the condition on the weights the weighted pick can return \<open>undefined\<close>, and a run
  without error can leave its last cell without a type: \<open>run_inherited_2_1\<close> above.)
\<close>

theorem error_free_run_consistent:
  assumes "unresolved_grid s" "weights_usable s" "whole_seed (rnd s)"
    and "generateLevel s = Some (Inr None, s')"
  shows "bufferstate s' = collapsed \<and> getNumberOfRemainingTilesToCollapse s' = 0
     \<and> weakly_consistent s' \<and> (rules_symmetric (rules s) \<longrightarrow> locally_consistent s')"
  using generateLevel_error_free[OF assms] symmetric_weakly_consistent[of s'] by simp

text \<open>
  The checkerboard rules on a grid of two by two cells with seed \<open>1\<close>: the run raises
  no error and yields \<open>A B / B A\<close>.
\<close>

theorem error_free_run_consistent_witness:
  "unresolved_grid (setRules rules_checker (WFC_constructor 2 2 (Some (Integer 1)) 0))
   \<and> weights_usable (setRules rules_checker (WFC_constructor 2 2 (Some (Integer 1)) 0))
   \<and> whole_seed (rnd (setRules rules_checker (WFC_constructor 2 2 (Some (Integer 1)) 0)))
   \<and> fst (the (generateLevel (setRules rules_checker (WFC_constructor 2 2 (Some (Integer 1)) 0)))) = Inr None
   \<and> rules_symmetric (rules (setRules rules_checker (WFC_constructor 2 2 (Some (Integer 1)) 0)))
   \<and> weakly_consistent (snd (the (generateLevel (setRules rules_checker (WFC_constructor 2 2 (Some (Integer 1)) 0)))))
   \<and> locally_consistent (snd (the (generateLevel (setRules rules_checker (WFC_constructor 2 2 (Some (Integer 1)) 0)))))
   \<and> map (map_option type)
        (tiles (snd (the (generateLevel (setRules rules_checker (WFC_constructor 2 2 (Some (Integer 1)) 0))))))
      = [Some (Some ''A''), Some (Some ''B''), Some (Some ''B''), Some (Some ''A'')]"
proof -
  let ?s = "setRules rules_checker (WFC_constructor 2 2 (Some (Integer 1)) 0)"
  have u: "unresolved_grid ?s" by (rule unresolved_grid_constructor) simp
  have w: "weights_usable ?s"
    by (simp add: setRules_def WFC_constructor_def weights_usable_def weight_usable_def
          listed_types_def rules_checker_def expand_weighted_def get_weight_def
          object_prototype_keys_def)
  have n: "whole_seed (rnd ?s)"
    by (simp add: setRules_def WFC_constructor_def truthy_number_def whole_seed_def)
  have r: "rules_symmetric (rules ?s)" by (simp add: setRules_def rules_checker_symmetric)
  note c = error_free_run_consistent[OF u w n run_checker_2_2]
  show ?thesis unfolding run_checker_2_2 option.sel fst_conv snd_conv
    using c u w n r by simp
qed

text \<open>
  Under \<open>rules_asymmetric\<close>, two cells and seed \<open>1\<close>, the run raises no error, ends
  \<open>collapsed\<close> and yields \<open>A B\<close>: the second cell was drawn from the right list of
  \<open>A\<close>. Its left neighbour has type \<open>A\<close>, which is not in the left list of \<open>B\<close>.
\<close>

theorem asymmetric_rules_counterexample:
  "fst (the (generateLevel (setRules rules_asymmetric (WFC_constructor 2 1 (Some (Integer 1)) 0)))) = Inr None
   \<and> bufferstate (snd (the (generateLevel (setRules rules_asymmetric (WFC_constructor 2 1 (Some (Integer 1)) 0)))))
       = collapsed
   \<and> \<not> claimed_pair (snd (the (generateLevel (setRules rules_asymmetric (WFC_constructor 2 1 (Some (Integer 1)) 0)))))
         1 Left
   \<and> \<not> locally_consistent (snd (the (generateLevel (setRules rules_asymmetric (WFC_constructor 2 1 (Some (Integer 1)) 0)))))"
  unfolding run_asymmetric_2_1
  by (simp add: claimed_pair_def locally_consistent_def neighbor_def rule_list_def
        rules_asymmetric_def leftTileIndex_def rightTileIndex_def upTileIndex_def
        downTileIndex_def js_rem_def tile_at_def upt_rec)

end
